theory Spec2Isabelle
  imports Complex_Main
begin

section \<open>JavaScript numbers\<close>

text \<open>
  Every quantity of the simulation is a JavaScript \<^verbatim>\<open>number\<close>. The model keeps the
  three non-finite values of the language as constructors of their own, so that a
  division by zero yields \<^verbatim>\<open>Infinity\<close> or \<^verbatim>\<open>NaN\<close> as it does in the program and the
  value then propagates through the arithmetic. Finite values are idealised: they are
  real numbers and the arithmetic on them is exact (no rounding, no overflow or
  underflow, and no distinction between the two zeros). The theorems that say which
  function of its inputs the program computes do not depend on this. The two that
  assert values of the arithmetic, the identity at \<open>dt = 0\<close> and the equilibrium, are
  stated on ranges where the doubles of the program stay finite and keep their
  denominators.
\<close>

datatype jsnum = Fin real | PInf | NInf | NaN

fun is_fin :: "jsnum \<Rightarrow> bool" where
  "is_fin (Fin r) = True"
| "is_fin _ = False"

instantiation jsnum :: "{plus, minus, uminus, times, inverse}"
begin

fun plus_jsnum :: "jsnum \<Rightarrow> jsnum \<Rightarrow> jsnum" where
  "plus_jsnum NaN _ = NaN"
| "plus_jsnum _ NaN = NaN"
| "plus_jsnum (Fin a) (Fin b) = Fin (a + b)"
| "plus_jsnum PInf NInf = NaN"
| "plus_jsnum NInf PInf = NaN"
| "plus_jsnum PInf _ = PInf"
| "plus_jsnum _ PInf = PInf"
| "plus_jsnum NInf _ = NInf"
| "plus_jsnum _ NInf = NInf"

fun uminus_jsnum :: "jsnum \<Rightarrow> jsnum" where
  "uminus_jsnum (Fin a) = Fin (- a)"
| "uminus_jsnum PInf = NInf"
| "uminus_jsnum NInf = PInf"
| "uminus_jsnum NaN = NaN"

definition minus_jsnum :: "jsnum \<Rightarrow> jsnum \<Rightarrow> jsnum" where
  "minus_jsnum (x::jsnum) y = x + (- y)"

text \<open>An infinite product or quotient takes its sign from the finite operand.\<close>

definition signed_inf :: "bool \<Rightarrow> jsnum" where
  "signed_inf positive = (if positive then PInf else NInf)"

fun times_jsnum :: "jsnum \<Rightarrow> jsnum \<Rightarrow> jsnum" where
  "times_jsnum NaN _ = NaN"
| "times_jsnum _ NaN = NaN"
| "times_jsnum (Fin a) (Fin b) = Fin (a * b)"
| "times_jsnum PInf PInf = PInf"
| "times_jsnum PInf NInf = NInf"
| "times_jsnum NInf PInf = NInf"
| "times_jsnum NInf NInf = PInf"
| "times_jsnum PInf (Fin b) = (if b = 0 then NaN else signed_inf (0 < b))"
| "times_jsnum NInf (Fin b) = (if b = 0 then NaN else signed_inf (b < 0))"
| "times_jsnum (Fin a) PInf = (if a = 0 then NaN else signed_inf (0 < a))"
| "times_jsnum (Fin a) NInf = (if a = 0 then NaN else signed_inf (a < 0))"

fun divide_jsnum :: "jsnum \<Rightarrow> jsnum \<Rightarrow> jsnum" where
  "divide_jsnum NaN _ = NaN"
| "divide_jsnum _ NaN = NaN"
| "divide_jsnum (Fin a) (Fin b) =
     (if b \<noteq> 0 then Fin (a / b)
      else if a = 0 then NaN
      else signed_inf (0 < a))"
| "divide_jsnum (Fin a) _ = Fin 0"
| "divide_jsnum PInf (Fin b) = signed_inf (0 \<le> b)"
| "divide_jsnum NInf (Fin b) = signed_inf (b < 0)"
| "divide_jsnum _ _ = NaN"

definition inverse_jsnum :: "jsnum \<Rightarrow> jsnum" where
  "inverse_jsnum (x::jsnum) = divide (Fin 1) x"

instance ..

end

text \<open>\<^verbatim>\<open>Math.sin\<close> and \<^verbatim>\<open>Math.cos\<close>: not a number outside the finite values.\<close>

fun Math_sin :: "jsnum \<Rightarrow> jsnum" where
  "Math_sin (Fin a) = Fin (sin a)"
| "Math_sin _ = NaN"

fun Math_cos :: "jsnum \<Rightarrow> jsnum" where
  "Math_cos (Fin a) = Fin (cos a)"
| "Math_cos _ = NaN"

definition Math_PI :: jsnum where
  "Math_PI = Fin pi"

text \<open>\<^verbatim>\<open>Math.min\<close> of two arguments: \<^verbatim>\<open>NaN\<close> as soon as one argument is.\<close>

fun Math_min :: "jsnum \<Rightarrow> jsnum \<Rightarrow> jsnum" where
  "Math_min NaN _ = NaN"
| "Math_min _ NaN = NaN"
| "Math_min NInf _ = NInf"
| "Math_min _ NInf = NInf"
| "Math_min PInf y = y"
| "Math_min x PInf = x"
| "Math_min (Fin a) (Fin b) = Fin (min a b)"

fun Math_floor :: "jsnum \<Rightarrow> jsnum" where
  "Math_floor (Fin a) = Fin (of_int \<lfloor>a\<rfloor>)"
| "Math_floor x = x"

text \<open>The comparison \<^verbatim>\<open>x > y\<close>: false whenever an operand is \<^verbatim>\<open>NaN\<close>.\<close>

fun js_gt :: "jsnum \<Rightarrow> jsnum \<Rightarrow> bool" where
  "js_gt NaN _ = False"
| "js_gt _ NaN = False"
| "js_gt (Fin a) (Fin b) = (b < a)"
| "js_gt PInf PInf = False"
| "js_gt PInf _ = True"
| "js_gt NInf _ = False"
| "js_gt (Fin a) PInf = False"
| "js_gt (Fin a) NInf = True"

text \<open>
  \<^verbatim>\<open>Number(x.toFixed(f))\<close>. For a finite \<open>x\<close> below \<open>10\<^sup>2\<^sup>1\<close> in magnitude,
  \<^verbatim>\<open>toFixed\<close> takes the sign off, picks the integer \<open>n\<close> with \<open>n / 10\<^sup>f\<close> closest to
  \<open>x\<close> (the larger one of two) and prints it with \<open>f\<close> decimals; from \<open>10\<^sup>2\<^sup>1\<close> on, and
  for the non-finite values, it prints the number itself. \<^verbatim>\<open>Number\<close> reads the digits
  back, so the string in between is not modelled.
\<close>

fun toFixed_Number :: "nat \<Rightarrow> jsnum \<Rightarrow> jsnum" where
  "toFixed_Number f (Fin x) =
     (if 10 ^ 21 \<le> \<bar>x\<bar> then Fin x
      else Fin (sgn x * of_int \<lfloor>\<bar>x\<bar> * 10 ^ f + 1 / 2\<rfloor> / 10 ^ f))"
| "toFixed_Number f x = x"

section \<open>Data model (types.ts)\<close>

record PendulumState =
  theta1 :: jsnum
  omega1 :: jsnum
  theta2 :: jsnum
  omega2 :: jsnum
  time :: jsnum

record PendulumConfig =
  L1 :: jsnum
  L2 :: jsnum
  m1 :: jsnum
  m2 :: jsnum
  g :: jsnum
  damping :: jsnum

text \<open>
  The fields of a history point are \<^verbatim>\<open>time\<close>, \<^verbatim>\<open>theta1\<close> and \<^verbatim>\<open>theta2\<close> in the source;
  they carry the prefix \<open>hp_\<close> here, the names being taken by the state's fields.
\<close>

record HistoryPoint =
  hp_time :: jsnum
  hp_theta1 :: jsnum
  hp_theta2 :: jsnum

section \<open>The physics engine (services/physicsEngine.ts)\<close>

text \<open>
  Reading an array at an index: an absent element is \<^verbatim>\<open>undefined\<close>, which the
  arithmetic that follows turns into \<^verbatim>\<open>NaN\<close>.
\<close>

definition idx :: "jsnum list \<Rightarrow> nat \<Rightarrow> jsnum" where
  "idx xs i = (if i < length xs then xs ! i else NaN)"

text \<open>\<^verbatim>\<open>xs.map((v, i) => f(v, i))\<close>.\<close>

definition map_idx :: "(jsnum \<Rightarrow> nat \<Rightarrow> jsnum) \<Rightarrow> jsnum list \<Rightarrow> jsnum list" where
  "map_idx f xs = map (\<lambda>i. f (xs ! i) i) [0..<length xs]"

definition derivatives :: "jsnum list \<Rightarrow> PendulumConfig \<Rightarrow> jsnum list" where
  "derivatives st config =
     (let t1 = idx st 0; w1 = idx st 1; t2 = idx st 2; w2 = idx st 3;
          delta = t1 - t2;
          den = Fin 2 * m1 config + m2 config
                - m2 config * Math_cos (Fin 2 * t1 - Fin 2 * t2);
          a1 = (- g config * (Fin 2 * m1 config + m2 config) * Math_sin t1
                - m2 config * g config * Math_sin (t1 - Fin 2 * t2)
                - Fin 2 * Math_sin delta * m2 config
                  * (w2 * w2 * L2 config + w1 * w1 * L1 config * Math_cos delta))
               / (L1 config * den);
          a2 = (Fin 2 * Math_sin delta
                * (w1 * w1 * L1 config * (m1 config + m2 config)
                   + g config * (m1 config + m2 config) * Math_cos t1
                   + w2 * w2 * L2 config * m2 config * Math_cos delta))
               / (L2 config * den);
          dampedA1 = a1 - damping config * w1;
          dampedA2 = a2 - damping config * w2
      in [w1, dampedA1, w2, dampedA2])"

definition rk4 :: "PendulumState \<Rightarrow> PendulumConfig \<Rightarrow> jsnum \<Rightarrow> PendulumState" where
  "rk4 s config dt =
     (let y = [theta1 s, omega1 s, theta2 s, omega2 s];
          k1 = derivatives y config;
          k2 = derivatives (map_idx (\<lambda>v i. v + idx k1 i * dt / Fin 2) y) config;
          k3 = derivatives (map_idx (\<lambda>v i. v + idx k2 i * dt / Fin 2) y) config;
          k4 = derivatives (map_idx (\<lambda>v i. v + idx k3 i * dt) y) config;
          nextY = map_idx (\<lambda>v i. v + (dt / Fin 6)
                     * (idx k1 i + Fin 2 * idx k2 i + Fin 2 * idx k3 i + idx k4 i)) y
      in \<lparr>theta1 = idx nextY 0,
          omega1 = idx nextY 1,
          theta2 = idx nextY 2,
          omega2 = idx nextY 3,
          time = time s + dt\<rparr>)"

section \<open>The application (App.tsx)\<close>

definition INITIAL_CONFIG :: PendulumConfig where
  "INITIAL_CONFIG =
     \<lparr>L1 = Fin (12 / 10), L2 = Fin 1, m1 = Fin (15 / 10), m2 = Fin 1,
      g = Fin (981 / 100), damping = Fin (2 / 100)\<rparr>"

definition INITIAL_STATE :: PendulumState where
  "INITIAL_STATE =
     \<lparr>theta1 = Math_PI / Fin 3, omega1 = Fin 0,
      theta2 = Math_PI / Fin 4, omega2 = Fin 0, time = Fin 0\<rparr>"

text \<open>
  The component's state: the four \<^verbatim>\<open>useState\<close> cells and the timestamp anchor
  \<^verbatim>\<open>lastTimeRef\<close> (\<open>None\<close> is \<^verbatim>\<open>null\<close>). The handle \<^verbatim>\<open>requestRef\<close> of the pending
  animation frame belongs to the scheduler and is read by no computation.
\<close>

record app =
  config :: PendulumConfig
  state :: PendulumState
  isRunning :: bool
  history :: "HistoryPoint list"
  lastTimeRef :: "jsnum option"

definition initial_app :: app where
  "initial_app =
     \<lparr>config = INITIAL_CONFIG, state = INITIAL_STATE, isRunning = False,
      history = [], lastTimeRef = None\<rparr>"

definition resetState :: "app \<Rightarrow> app" where
  "resetState a = a\<lparr>state := INITIAL_STATE, history := [], lastTimeRef := None\<rparr>"

text \<open>\<^verbatim>\<open>for (let i = 0; i < subSteps; i++) current = rk4(current, config, subDt)\<close>.\<close>

function substep_loop ::
  "nat \<Rightarrow> nat \<Rightarrow> PendulumConfig \<Rightarrow> jsnum \<Rightarrow> PendulumState \<Rightarrow> PendulumState" where
  "substep_loop i subSteps cfg subDt current =
     (if i < subSteps
      then substep_loop (i + 1) subSteps cfg subDt (rk4 current cfg subDt)
      else current)"
  by pat_completeness auto
termination
  by (relation "measure (\<lambda>(i, subSteps, _). subSteps - i)") auto

declare substep_loop.simps [simp del]

text \<open>\<^verbatim>\<open>xs.slice(-n)\<close>: the last \<open>n\<close> elements, all of them when there are fewer.\<close>

definition slice_last :: "nat \<Rightarrow> 'a list \<Rightarrow> 'a list" where
  "slice_last n xs = drop (length xs - n) xs"

definition newPoint :: "PendulumState \<Rightarrow> HistoryPoint" where
  "newPoint current =
     \<lparr>hp_time = toFixed_Number 2 (time current),
      hp_theta1 = toFixed_Number 1 (theta1 current * Fin 180 / Math_PI),
      hp_theta2 = toFixed_Number 1 (theta2 current * Fin 180 / Math_PI)\<rparr>"

text \<open>
  The animation-frame callback. The two state updaters run once each, in the order the
  source queues them; \<open>isRunning\<close> and \<open>config\<close> are the values the callback closes over.
\<close>

definition update :: "jsnum \<Rightarrow> app \<Rightarrow> app" where
  "update tm a =
     (let a' =
        (if lastTimeRef a \<noteq> None \<and> isRunning a then
           (let dt = Math_min ((tm - the (lastTimeRef a)) / Fin 1000) (Fin (32 / 1000));
                subSteps = 10;
                subDt = dt / Fin (of_nat subSteps);
                prevState = state a;
                current = substep_loop 0 subSteps (config a) subDt prevState
            in a\<lparr>state := current,
                 history :=
                   (if js_gt (Math_floor (time current * Fin 20))
                             (Math_floor (time prevState * Fin 20))
                    then slice_last 100 (history a @ [newPoint current])
                    else history a)\<rparr>)
         else a)
      in a'\<lparr>lastTimeRef := Some tm\<rparr>)"

text \<open>
  What reaches the component from outside: an animation frame with its timestamp, and
  the three callbacks handed to the controls (\<^verbatim>\<open>setIsRunning\<close>, \<^verbatim>\<open>setConfig\<close>,
  \<^verbatim>\<open>onReset\<close>).
\<close>

datatype event = Tick jsnum | SetIsRunning bool | SetConfig PendulumConfig | Reset

fun step :: "event \<Rightarrow> app \<Rightarrow> app" where
  "step (Tick tm) a = update tm a"
| "step (SetIsRunning b) a = a\<lparr>isRunning := b\<rparr>"
| "step (SetConfig c) a = a\<lparr>config := c\<rparr>"
| "step Reset a = resetState a"

fun run :: "event list \<Rightarrow> app \<Rightarrow> app" where
  "run [] a = a"
| "run (e # es) a = run es (step e a)"

section \<open>Notions of the specification\<close>

subsection \<open>The closed-form accelerations\<close>

definition spec_den :: "jsnum \<Rightarrow> jsnum \<Rightarrow> PendulumConfig \<Rightarrow> jsnum" where
  "spec_den th1 th2 c = Fin 2 * m1 c + m2 c - m2 c * Math_cos (Fin 2 * th1 - Fin 2 * th2)"

definition spec_a1 ::
  "jsnum \<Rightarrow> jsnum \<Rightarrow> jsnum \<Rightarrow> jsnum \<Rightarrow> PendulumConfig \<Rightarrow> jsnum" where
  "spec_a1 th1 om1 th2 om2 c =
     (let delta = th1 - th2 in
      (- g c * (Fin 2 * m1 c + m2 c) * Math_sin th1
       - m2 c * g c * Math_sin (th1 - Fin 2 * th2)
       - Fin 2 * Math_sin delta * m2 c
         * (om2 * om2 * L2 c + om1 * om1 * L1 c * Math_cos delta))
      / (L1 c * spec_den th1 th2 c))"

definition spec_a2 ::
  "jsnum \<Rightarrow> jsnum \<Rightarrow> jsnum \<Rightarrow> jsnum \<Rightarrow> PendulumConfig \<Rightarrow> jsnum" where
  "spec_a2 th1 om1 th2 om2 c =
     (let delta = th1 - th2 in
      (Fin 2 * Math_sin delta
       * (om1 * om1 * L1 c * (m1 c + m2 c)
          + g c * (m1 c + m2 c) * Math_cos th1
          + om2 * om2 * L2 c * m2 c * Math_cos delta))
      / (L2 c * spec_den th1 th2 c))"

subsection \<open>The Runge-Kutta step on vectors\<close>

definition vadd :: "jsnum list \<Rightarrow> jsnum list \<Rightarrow> jsnum list" where
  "vadd xs ys = map2 (+) xs ys"

definition smul :: "jsnum \<Rightarrow> jsnum list \<Rightarrow> jsnum list" where
  "smul k xs = map ((*) k) xs"

definition integrate_step ::
  "PendulumState \<Rightarrow> PendulumConfig \<Rightarrow> jsnum \<Rightarrow> PendulumState" where
  "integrate_step s c dt =
     (let y = [theta1 s, omega1 s, theta2 s, omega2 s];
          k1 = derivatives y c;
          k2 = derivatives (vadd y (smul (dt / Fin 2) k1)) c;
          k3 = derivatives (vadd y (smul (dt / Fin 2) k2)) c;
          k4 = derivatives (vadd y (smul dt k3)) c;
          nxt = vadd y (smul (dt / Fin 6)
                  (vadd (vadd (vadd k1 (smul (Fin 2) k2)) (smul (Fin 2) k3)) k4))
      in \<lparr>theta1 = nxt ! 0, omega1 = nxt ! 1, theta2 = nxt ! 2, omega2 = nxt ! 3,
          time = time s + dt\<rparr>)"

subsection \<open>Finite states, valid configurations, rest\<close>

fun js_pos :: "jsnum \<Rightarrow> bool" where
  "js_pos (Fin a) = (0 < a)"
| "js_pos _ = False"

fun js_nonneg :: "jsnum \<Rightarrow> bool" where
  "js_nonneg (Fin a) = (0 \<le> a)"
| "js_nonneg _ = False"

text \<open>The four mechanical channels of a state are finite numbers.\<close>

definition finite_channels :: "PendulumState \<Rightarrow> bool" where
  "finite_channels s \<longleftrightarrow>
     is_fin (theta1 s) \<and> is_fin (omega1 s) \<and> is_fin (theta2 s) \<and> is_fin (omega2 s)"

text \<open>Finite fields, lengths and masses strictly positive.\<close>

definition positive_config :: "PendulumConfig \<Rightarrow> bool" where
  "positive_config c \<longleftrightarrow>
     js_pos (L1 c) \<and> js_pos (L2 c) \<and> js_pos (m1 c) \<and> js_pos (m2 c)
     \<and> is_fin (g c) \<and> is_fin (damping c)"

text \<open>A valid configuration: moreover gravity and damping are not negative.\<close>

definition valid_config :: "PendulumConfig \<Rightarrow> bool" where
  "valid_config c \<longleftrightarrow>
     js_pos (L1 c) \<and> js_pos (L2 c) \<and> js_pos (m1 c) \<and> js_pos (m2 c)
     \<and> js_nonneg (g c) \<and> js_nonneg (damping c)"

text \<open>The stable equilibrium: both angles and both angular velocities are zero.\<close>

definition at_rest :: "PendulumState \<Rightarrow> bool" where
  "at_rest s \<longleftrightarrow>
     theta1 s = Fin 0 \<and> omega1 s = Fin 0 \<and> theta2 s = Fin 0 \<and> omega2 s = Fin 0"

text \<open>A run of integration steps, one for each increment of the list.\<close>

fun rk4_steps :: "jsnum list \<Rightarrow> PendulumConfig \<Rightarrow> PendulumState \<Rightarrow> PendulumState" where
  "rk4_steps [] c s = s"
| "rk4_steps (dt # dts) c s = rk4_steps dts c (rk4 s c dt)"

subsection \<open>Timestamps of a run\<close>

text \<open>
  The timestamps of the frames are finite and none is smaller than the anchor it meets;
  a reset clears the anchor, so the frame after it is free.
\<close>

fun stamps_ok :: "jsnum option \<Rightarrow> event list \<Rightarrow> bool" where
  "stamps_ok prev [] = True"
| "stamps_ok prev (Tick tm # es) =
     (is_fin tm \<and> (case prev of None \<Rightarrow> True | Some p \<Rightarrow> is_fin p \<and> \<not> js_gt p tm)
      \<and> stamps_ok (Some tm) es)"
| "stamps_ok prev (Reset # es) = stamps_ok None es"
| "stamps_ok prev (_ # es) = stamps_ok prev es"

text \<open>Strictly increasing times, oldest first.\<close>

definition increasing_times :: "HistoryPoint list \<Rightarrow> bool" where
  "increasing_times h = sorted_wrt (\<lambda>p q. js_gt (hp_time q) (hp_time p)) h"

text \<open>
  The configurations the sliders of the control panel produce: masses from 0.1 to 10,
  lengths from 0.5 to 3, damping from 0 to 0.5 and gravity from 0 to 20.
\<close>

fun js_between :: "real \<Rightarrow> real \<Rightarrow> jsnum \<Rightarrow> bool" where
  "js_between lo hi (Fin a) = (lo \<le> a \<and> a \<le> hi)"
| "js_between lo hi _ = False"

definition slider_config :: "PendulumConfig \<Rightarrow> bool" where
  "slider_config c \<longleftrightarrow>
     js_between (1 / 10) 10 (m1 c) \<and> js_between (1 / 10) 10 (m2 c)
     \<and> js_between (1 / 2) 3 (L1 c) \<and> js_between (1 / 2) 3 (L2 c)
     \<and> js_between 0 (1 / 2) (damping c) \<and> js_between 0 20 (g c)"

text \<open>
  The four mechanical channels are finite and at most \<open>10\<^sup>1\<^sup>0\<^sup>0\<close> in magnitude. With a
  configuration of the sliders, every product and sum the evaluator forms on such a
  state stays below \<open>10\<^sup>2\<^sup>0\<^sup>4\<close>, far from the largest double, and the sum \<open>2 m1 + m2\<close>
  exceeds \<open>m2\<close> by a fifth at least, so the doubles of the program neither overflow nor
  lose the denominator to rounding there.
\<close>

definition bounded_channels :: "PendulumState \<Rightarrow> bool" where
  "bounded_channels s \<longleftrightarrow>
     js_between (- (10 ^ 100)) (10 ^ 100) (theta1 s)
     \<and> js_between (- (10 ^ 100)) (10 ^ 100) (omega1 s)
     \<and> js_between (- (10 ^ 100)) (10 ^ 100) (theta2 s)
     \<and> js_between (- (10 ^ 100)) (10 ^ 100) (omega2 s)"

text \<open>
  The events that cannot move a pendulum at rest: frames, the running flag, and the
  configurations of the sliders.
\<close>

fun quiet_event :: "event \<Rightarrow> bool" where
  "quiet_event (Tick tm) = True"
| "quiet_event (SetIsRunning b) = True"
| "quiet_event (SetConfig c) = slider_config c"
| "quiet_event Reset = False"

text \<open>Frames every 32 milliseconds, from the timestamp 0 to the timestamp \<open>32 n\<close>.\<close>

definition steady_frames :: "nat \<Rightarrow> event list" where
  "steady_frames n = map (\<lambda>k. Tick (Fin (32 * real k))) [0..<Suc n]"


subsection \<open>The frame interval\<close>

text \<open>The wall-clock interval since the anchor, in seconds, capped at 0.032.\<close>

definition frame_dt :: "jsnum \<Rightarrow> jsnum \<Rightarrow> jsnum" where
  "frame_dt tm p = Math_min ((tm - p) / Fin 1000) (Fin (32 / 1000))"

subsection \<open>The invariant of the history\<close>

text \<open>
  The simulation time is a finite number \<open>t \<ge> 0\<close>, the history holds at most 100
  points in strictly increasing order of time, each of them strictly below the end of
  the twentieth of a second that \<open>t\<close> lies in, and the anchor is finite.
\<close>

definition hist_inv :: "app \<Rightarrow> bool" where
  "hist_inv a \<longleftrightarrow>
     (\<exists>t. time (state a) = Fin t \<and> 0 \<le> t
        \<and> (\<forall>h \<in> set (history a).
              \<exists>r. hp_time h = Fin r \<and> r < (of_int \<lfloor>t * 20\<rfloor> + 1) / 20))
     \<and> length (history a) \<le> 100
     \<and> increasing_times (history a)
     \<and> (\<forall>p. lastTimeRef a = Some p \<longrightarrow> is_fin p)"

text \<open>
  The number of points held: one for each twentieth of a second the simulation time has
  completed, up to 100.
\<close>

definition count_inv :: "app \<Rightarrow> bool" where
  "count_inv a \<longleftrightarrow>
     (\<exists>t. time (state a) = Fin t \<and> 0 \<le> t
        \<and> length (history a) = min 100 (nat \<lfloor>t * 20\<rfloor>))
     \<and> (\<forall>p. lastTimeRef a = Some p \<longrightarrow> is_fin p)"

section \<open>Arithmetic and vectors\<close>

lemma jmul_commute: "(x::jsnum) * y = y * x"
  by (cases x; cases y; simp add: mult.commute)

lemma half_scale: "(k * dt) / Fin 2 = (dt / Fin 2) * (k::jsnum)"
  by (cases k; cases dt; auto simp: signed_inf_def)

lemma derivatives_length: "length (derivatives y c) = 4"
  by (simp add: derivatives_def Let_def)

lemma map_idx4: "map_idx f [a, b, c, d] = [f a 0, f b 1, f c 2, f d 3]"
  by (simp add: map_idx_def upt_rec numeral_eq_Suc)

lemma length4E:
  assumes "length xs = 4"
  obtains a b c d where "xs = [a, b, c, d]"
  using assms by (auto simp: length_Suc_conv numeral_eq_Suc)

lemma smul_length: "length (smul k xs) = length xs"
  by (simp add: smul_def)

lemma vadd_length: "length (vadd xs ys) = min (length xs) (length ys)"
  by (simp add: vadd_def)

lemma idx_nth: "i < length xs \<Longrightarrow> idx xs i = xs ! i"
  by (simp add: idx_def)

text \<open>The three index-wise maps of \<open>rk4\<close>, read as vector operations.\<close>

lemma stage_half:
  assumes "length k = 4"
  shows "map_idx (\<lambda>v i. v + idx k i * dt / Fin 2) [a, b, c, d]
         = vadd [a, b, c, d] (smul (dt / Fin 2) k)"
proof -
  from assms obtain p q r s where "k = [p, q, r, s]" by (rule length4E)
  then show ?thesis
    by (simp add: map_idx4 idx_def vadd_def smul_def half_scale)
qed

lemma stage_full:
  assumes "length k = 4"
  shows "map_idx (\<lambda>v i. v + idx k i * dt) [a, b, c, d] = vadd [a, b, c, d] (smul dt k)"
proof -
  from assms obtain p q r s where "k = [p, q, r, s]" by (rule length4E)
  then show ?thesis
    by (simp add: map_idx4 idx_def vadd_def smul_def jmul_commute [of _ dt])
qed

lemma stage_sum:
  assumes "length k1 = 4" "length k2 = 4" "length k3 = 4" "length k4 = 4"
  shows "map_idx (\<lambda>v i. v + (dt / Fin 6)
            * (idx k1 i + Fin 2 * idx k2 i + Fin 2 * idx k3 i + idx k4 i)) [a, b, c, d]
         = vadd [a, b, c, d] (smul (dt / Fin 6)
             (vadd (vadd (vadd k1 (smul (Fin 2) k2)) (smul (Fin 2) k3)) k4))"
proof -
  from assms(1) obtain p1 q1 r1 s1 where 1: "k1 = [p1, q1, r1, s1]" by (rule length4E)
  from assms(2) obtain p2 q2 r2 s2 where 2: "k2 = [p2, q2, r2, s2]" by (rule length4E)
  from assms(3) obtain p3 q3 r3 s3 where 3: "k3 = [p3, q3, r3, s3]" by (rule length4E)
  from assms(4) obtain p4 q4 r4 s4 where 4: "k4 = [p4, q4, r4, s4]" by (rule length4E)
  show ?thesis
    unfolding 1 2 3 4 by (simp add: map_idx4 idx_def vadd_def smul_def)
qed

section \<open>The derivative evaluator\<close>

lemma derivatives_vec:
  "derivatives [th1, om1, th2, om2] c =
     [om1, spec_a1 th1 om1 th2 om2 c - damping c * om1,
      om2, spec_a2 th1 om1 th2 om2 c - damping c * om2]"
  by (simp add: derivatives_def spec_a1_def spec_a2_def spec_den_def idx_def Let_def)

text \<open>
  Claim C1. On every state vector \<open>(theta1, omega1, theta2, omega2)\<close> and every
  configuration the evaluator returns \<open>(omega1, a1 - damping * omega1, omega2,
  a2 - damping * omega2)\<close>, where \<open>a1\<close> and \<open>a2\<close> are the closed-form accelerations of the
  specification; the damping is subtracted from the finished accelerations.
\<close>

theorem derivatives_closed_form:
  "derivatives [th1, om1, th2, om2] c =
     [om1, spec_a1 th1 om1 th2 om2 c - damping c * om1,
      om2, spec_a2 th1 om1 th2 om2 c - damping c * om2]"
  by (rule derivatives_vec)

section \<open>The Runge-Kutta step\<close>

text \<open>
  Claim C2. One step takes the four samples \<open>k1\<close> at the state, \<open>k2\<close> at
  \<open>state + (dt/2) k1\<close>, \<open>k3\<close> at \<open>state + (dt/2) k2\<close>, \<open>k4\<close> at \<open>state + dt k3\<close>, returns
  \<open>state + (dt/6) (k1 + 2 k2 + 2 k3 + k4)\<close> on the four channels and the time advanced by
  \<open>dt\<close>. The result is a function of the state, the configuration and \<open>dt\<close> alone.
\<close>

theorem rk4_integrate_step:
  "rk4 s c dt = integrate_step s c dt \<and> time (rk4 s c dt) = time s + dt"
  unfolding rk4_def integrate_step_def Let_def
  by (simp add: stage_half stage_full stage_sum derivatives_length idx_nth
      vadd_length smul_length)

section \<open>The simulation driver\<close>

lemma rk4_time: "time (rk4 s c dt) = time s + dt"
  by (simp add: rk4_def Let_def)

lemma substep_loop_funpow:
  "substep_loop i n c d s = ((\<lambda>s. rk4 s c d) ^^ (n - i)) s"
proof (induction i n c d s rule: substep_loop.induct)
  case (1 i n c d s)
  show ?case
  proof (cases "i < n")
    case True
    then have "n - i = Suc (n - (i + 1))" by simp
    with True "1" funpow_swap1 [of "\<lambda>s. rk4 s c d" "n - (i + 1)" s] show ?thesis
      by (simp add: substep_loop.simps [of i])
  next
    case False
    then show ?thesis by (simp add: substep_loop.simps [of i])
  qed
qed

lemma funpow_rk4_time:
  "time (((\<lambda>s. rk4 s c d) ^^ n) s) = ((\<lambda>t. t + d) ^^ n) (time s)"
  by (induction n) (simp_all add: rk4_time)

lemma update_running:
  assumes "lastTimeRef a = Some p" "isRunning a"
  shows "state (update tm a) = ((\<lambda>s. rk4 s (config a) (frame_dt tm p / Fin 10)) ^^ 10) (state a)"
  using assms by (simp add: update_def Let_def substep_loop_funpow frame_dt_def)

lemma update_history:
  assumes "lastTimeRef a = Some p" "isRunning a"
  shows "history (update tm a) =
    (if js_gt (Math_floor (time (state (update tm a)) * Fin 20)) (Math_floor (time (state a) * Fin 20))
     then slice_last 100 (history a @ [newPoint (state (update tm a))])
     else history a)"
  using assms by (simp add: update_def Let_def)

lemma update_idle:
  assumes "lastTimeRef a = None \<or> \<not> isRunning a"
  shows "update tm a = a\<lparr>lastTimeRef := Some tm\<rparr>"
  using assms by (auto simp: update_def)

lemma update_anchor: "lastTimeRef (update tm a) = Some tm"
  by (simp add: update_def Let_def)

subsection \<open>Time, frame interval and rounding on finite numbers\<close>

lemma funpow_add_Fin: "((\<lambda>t. t + Fin e) ^^ n) (Fin t) = Fin (t + of_nat n * e)"
  by (induction n) (simp_all add: algebra_simps)

lemma frame_dt_Fin:
  assumes "pr \<le> tr"
  obtains d where "frame_dt (Fin tr) (Fin pr) = Fin d" "0 \<le> d" "d \<le> 32 / 1000"
proof
  show "frame_dt (Fin tr) (Fin pr) = Fin (min ((tr - pr) / 1000) (32 / 1000))"
    by (simp add: frame_dt_def minus_jsnum_def)
  show "0 \<le> min ((tr - pr) / 1000) (32 / 1000)" using assms by simp
  show "min ((tr - pr) / 1000) (32 / 1000) \<le> 32 / 1000" by simp
qed

lemma toFixed2_bucket:
  fixes x :: real and B :: int
  assumes "0 \<le> x" "of_int B / 20 \<le> x" "x < of_int B / 20 + 45 / 1000"
  obtains r where "toFixed_Number 2 (Fin x) = Fin r" "of_int B / 20 \<le> r" "r < (of_int B + 1) / 20"
proof (cases "10 ^ 21 \<le> \<bar>x\<bar>")
  case True
  show ?thesis
  proof
    show "toFixed_Number 2 (Fin x) = Fin x" using True by simp
    show "of_int B / 20 \<le> x" by fact
    show "x < (of_int B + 1) / 20" using assms(3) by (simp add: field_simps)
  qed
next
  case False
  define n where "n = \<lfloor>x * 100 + 1 / 2\<rfloor>"
  have lo: "5 * B \<le> n"
  proof -
    have "of_int (5 * B) \<le> x * 100 + 1 / 2" using assms(2) by (simp add: field_simps)
    then show ?thesis unfolding n_def by (simp only: le_floor_iff)
  qed
  have hi: "n < 5 * B + 5"
  proof -
    have "x * 100 + 1 / 2 < of_int (5 * B + 5)" using assms(3) by (simp add: field_simps)
    then show ?thesis unfolding n_def by (simp only: floor_less_iff)
  qed
  have B0: "0 \<le> B"
  proof -
    have "0 < of_int B / 20 + (45 / 1000 :: real)" using assms(1,3) by linarith
    then have "(-1 :: real) < of_int B" by (simp add: field_simps)
    then have "-1 < B" by linarith
    then show ?thesis by simp
  qed
  show ?thesis
  proof (cases "x = 0")
    case True
    show ?thesis
    proof
      show "toFixed_Number 2 (Fin x) = Fin 0" using True by simp
      show "of_int B / 20 \<le> (0::real)" using assms(2) True by simp
      show "(0::real) < (of_int B + 1) / 20" using B0 by simp
    qed
  next
    case xnz: False
    with assms(1) have xpos: "0 < x" by simp
    show ?thesis
    proof
      show "toFixed_Number 2 (Fin x) = Fin (of_int n / 100)"
        using False xpos by (simp add: n_def)
      have "of_int (5 * B) \<le> (of_int n :: real)" using lo by (simp only: of_int_le_iff)
      then show "of_int B / 20 \<le> (of_int n / 100 :: real)" by (simp add: field_simps)
      have "n \<le> 5 * B + 4" using hi by simp
      then have "(of_int n :: real) \<le> of_int (5 * B + 4)" by (simp only: of_int_le_iff)
      then show "(of_int n / 100 :: real) < (of_int B + 1) / 20" by (simp add: field_simps)
    qed
  qed
qed

subsection \<open>A frame preserves the invariant of the history\<close>

lemma is_finE: assumes "is_fin x" obtains r where "x = Fin r"
  using assms by (cases x) simp_all

lemma slice_last_length: "length (slice_last n xs) \<le> n"
  by (simp add: slice_last_def)

lemma slice_last_set: "set (slice_last n xs) \<subseteq> set xs"
  by (simp add: slice_last_def set_drop_subset)

lemma increasing_slice_last: "increasing_times xs \<Longrightarrow> increasing_times (slice_last n xs)"
  by (simp add: increasing_times_def slice_last_def sorted_wrt_drop)

lemma increasing_snoc:
  assumes "increasing_times h" "\<forall>q \<in> set h. js_gt (hp_time pt) (hp_time q)"
  shows "increasing_times (h @ [pt])"
  using assms by (simp add: increasing_times_def sorted_wrt_append)

lemma floor20_mono: "(t::real) \<le> t' \<Longrightarrow> \<lfloor>t * 20\<rfloor> \<le> \<lfloor>t' * 20\<rfloor>"
  by (simp add: floor_mono)

lemma below_bucket_end: "(t::real) < (of_int \<lfloor>t * 20\<rfloor> + 1) / 20"
proof -
  have "t * 20 < of_int \<lfloor>t * 20\<rfloor> + 1" by linarith
  then show ?thesis by (simp add: field_simps)
qed

lemma update_time_Fin:
  assumes run: "lastTimeRef a = Some (Fin pr)" "isRunning a"
    and t: "time (state a) = Fin t"
    and fd: "frame_dt (Fin tr) (Fin pr) = Fin d"
  shows "time (state (update (Fin tr) a)) = Fin (t + d)"
proof -
  have "time (state (update (Fin tr) a)) = ((\<lambda>u. u + Fin (d / 10)) ^^ 10) (Fin t)"
    using run t fd by (simp add: update_running funpow_rk4_time)
  also have "\<dots> = Fin (t + of_nat 10 * (d / 10))" by (rule funpow_add_Fin)
  finally show ?thesis by simp
qed

lemma update_hist_inv:
  assumes inv: "hist_inv a" and fin: "is_fin tm"
    and mono: "\<forall>p. lastTimeRef a = Some p \<longrightarrow> \<not> js_gt p tm"
  shows "hist_inv (update tm a)"
proof (cases "lastTimeRef a \<noteq> None \<and> isRunning a")
  case False
  then have "update tm a = a\<lparr>lastTimeRef := Some tm\<rparr>" by (intro update_idle) auto
  with inv fin show ?thesis by (simp add: hist_inv_def)
next
  case True
  then obtain p where p: "lastTimeRef a = Some p" and running: "isRunning a" by auto
  from fin obtain tr where tr: "tm = Fin tr" by (rule is_finE)
  from inv p have "is_fin p" by (simp add: hist_inv_def)
  then obtain pr where pr: "p = Fin pr" by (rule is_finE)
  from mono p tr pr have le: "pr \<le> tr" by simp
  from le obtain d where d: "frame_dt (Fin tr) (Fin pr) = Fin d" "0 \<le> d" "d \<le> 32 / 1000"
    by (rule frame_dt_Fin)
  from inv obtain t where t: "time (state a) = Fin t" "0 \<le> t"
    and below: "\<forall>h \<in> set (history a). \<exists>r. hp_time h = Fin r \<and> r < (of_int \<lfloor>t * 20\<rfloor> + 1) / 20"
    and len: "length (history a) \<le> 100" and incr: "increasing_times (history a)"
    unfolding hist_inv_def by blast
  let ?a' = "update tm a"
  have t': "time (state ?a') = Fin (t + d)"
    using p running t(1) d(1) unfolding tr pr by (rule update_time_Fin)
  have anchor: "\<forall>q. lastTimeRef ?a' = Some q \<longrightarrow> is_fin q"
    using fin by (simp add: update_anchor)
  have nonneg: "0 \<le> t + d" using t(2) d(2) by simp
  define B where "B = \<lfloor>(t + d) * 20\<rfloor>"
  have bucket_mono: "\<lfloor>t * 20\<rfloor> \<le> B" unfolding B_def using d(2) by (intro floor20_mono) simp
  have hist: "history ?a' =
      (if \<lfloor>t * 20\<rfloor> < B then slice_last 100 (history a @ [newPoint (state ?a')]) else history a)"
    using update_history [OF p running, of tm] t' t(1) by (simp add: B_def)
  show ?thesis
  proof (cases "\<lfloor>t * 20\<rfloor> < B")
    case False
    with hist have same: "history ?a' = history a" by simp
    have "\<forall>h \<in> set (history a). \<exists>r. hp_time h = Fin r \<and> r < (of_int B + 1) / 20"
    proof
      fix h assume "h \<in> set (history a)"
      with below obtain r where r: "hp_time h = Fin r" "r < (of_int \<lfloor>t * 20\<rfloor> + 1) / 20" by blast
      have "(of_int \<lfloor>t * 20\<rfloor> + 1) / 20 \<le> (of_int B + 1) / (20::real)"
        using bucket_mono by simp
      with r show "\<exists>r. hp_time h = Fin r \<and> r < (of_int B + 1) / 20" by force
    qed
    with same t' nonneg len incr anchor show ?thesis
      unfolding hist_inv_def B_def by (intro conjI exI [of _ "t + d"]) simp_all
  next
    case True
    let ?pt = "newPoint (state ?a')"
    have B_le: "of_int B / 20 \<le> t + d"
    proof -
      have "of_int B \<le> (t + d) * 20" unfolding B_def by (rule of_int_floor_le)
      then show ?thesis by (simp add: field_simps)
    qed
    have t_lt: "t < of_int B / 20"
    proof -
      have "\<lfloor>t * 20\<rfloor> + 1 \<le> B" using True by simp
      then have "(of_int \<lfloor>t * 20\<rfloor> + 1 :: real) \<le> of_int B" by (metis of_int_1 of_int_add of_int_le_iff)
      with below_bucket_end [of t] show ?thesis by (simp add: field_simps)
    qed
    have "t + d < of_int B / 20 + 45 / 1000" using t_lt d(3) by simp
    with nonneg B_le obtain r' where r': "toFixed_Number 2 (Fin (t + d)) = Fin r'"
      "of_int B / 20 \<le> r'" "r' < (of_int B + 1) / 20"
      by (rule toFixed2_bucket)
    have pt_time: "hp_time ?pt = Fin r'" using t' r'(1) by (simp add: newPoint_def)
    have old_below: "\<exists>r. hp_time h = Fin r \<and> r < of_int B / 20" if "h \<in> set (history a)" for h
    proof -
      from that below obtain r where r: "hp_time h = Fin r" "r < (of_int \<lfloor>t * 20\<rfloor> + 1) / 20" by blast
      have "\<lfloor>t * 20\<rfloor> + 1 \<le> B" using True by simp
      then have "(of_int \<lfloor>t * 20\<rfloor> + 1 :: real) \<le> of_int B" by (metis of_int_1 of_int_add of_int_le_iff)
      then have "(of_int \<lfloor>t * 20\<rfloor> + 1) / 20 \<le> of_int B / (20::real)" by simp
      with r show ?thesis by force
    qed
    have "\<forall>q \<in> set (history a). js_gt (hp_time ?pt) (hp_time q)"
    proof
      fix q assume "q \<in> set (history a)"
      then obtain r where "hp_time q = Fin r" "r < of_int B / 20" using old_below by blast
      with pt_time r'(2) show "js_gt (hp_time ?pt) (hp_time q)" by simp
    qed
    with incr have incr': "increasing_times (history a @ [?pt])" by (rule increasing_snoc)
    have all_below: "\<exists>r. hp_time h = Fin r \<and> r < (of_int B + 1) / 20"
      if "h \<in> set (history a @ [?pt])" for h
    proof (cases "h = ?pt")
      case True
      with pt_time r'(3) show ?thesis by simp
    next
      case False
      with that have "h \<in> set (history a)" by simp
      then obtain r where "hp_time h = Fin r" "r < of_int B / 20" using old_below by blast
      moreover have "of_int B / 20 < (of_int B + 1) / (20::real)" by simp
      ultimately show ?thesis by force
    qed
    have new: "history ?a' = slice_last 100 (history a @ [?pt])" using hist True by simp
    have "\<forall>h \<in> set (history ?a'). \<exists>r. hp_time h = Fin r \<and> r < (of_int B + 1) / 20"
    proof
      fix h assume "h \<in> set (history ?a')"
      then have "h \<in> set (slice_last 100 (history a @ [?pt]))" by (simp only: new)
      then have "h \<in> set (history a @ [?pt])" using slice_last_set by (rule rev_subsetD)
      then show "\<exists>r. hp_time h = Fin r \<and> r < (of_int B + 1) / 20" by (rule all_below)
    qed
    moreover have "length (history ?a') \<le> 100" unfolding new by (rule slice_last_length)
    moreover have "increasing_times (history ?a')" unfolding new using incr' by (rule increasing_slice_last)
    ultimately show ?thesis
      using t' nonneg anchor unfolding hist_inv_def B_def
      by (intro conjI exI [of _ "t + d"]) simp_all
  qed
qed

subsection \<open>Runs of events\<close>

lemma initial_hist_inv: "hist_inv (initial_app\<lparr>config := c, isRunning := b\<rparr>)"
  by (simp add: hist_inv_def initial_app_def INITIAL_STATE_def increasing_times_def)

lemma resetState_initial: "resetState a = initial_app\<lparr>config := config a, isRunning := isRunning a\<rparr>"
  by (simp add: resetState_def initial_app_def)

lemma step_hist_inv:
  assumes "hist_inv a" "stamps_ok (lastTimeRef a) (e # es)"
  shows "hist_inv (step e a) \<and> stamps_ok (lastTimeRef (step e a)) es"
proof (cases e)
  case (Tick tm)
  with assms(2) have fin: "is_fin tm"
    and mono: "\<forall>p. lastTimeRef a = Some p \<longrightarrow> \<not> js_gt p tm"
    and rest: "stamps_ok (Some tm) es"
    by (auto split: option.splits)
  from assms(1) fin mono have "hist_inv (update tm a)" by (rule update_hist_inv)
  with rest Tick show ?thesis by (simp add: update_anchor)
next
  case (SetIsRunning b)
  with assms show ?thesis by (simp add: hist_inv_def)
next
  case (SetConfig c)
  with assms show ?thesis by (simp add: hist_inv_def)
next
  case Reset
  with assms(2) have "stamps_ok None es" by simp
  moreover have "hist_inv (resetState a)"
    unfolding resetState_initial by (rule initial_hist_inv)
  ultimately show ?thesis using Reset by (simp add: resetState_def)
qed

lemma run_hist_inv:
  "hist_inv a \<Longrightarrow> stamps_ok (lastTimeRef a) es \<Longrightarrow> hist_inv (run es a)"
proof (induction es arbitrary: a)
  case Nil
  then show ?case by simp
next
  case (Cons e es)
  from Cons.prems have "hist_inv (step e a) \<and> stamps_ok (lastTimeRef (step e a)) es"
    by (rule step_hist_inv)
  then show ?case using Cons.IH by simp
qed

lemma slice_last_snoc:
  assumes "length h \<le> 100"
  shows "slice_last 100 (h @ [pt]) = (if length h < 100 then h @ [pt] else tl h @ [pt])"
proof (cases "length h < 100")
  case True
  then show ?thesis by (simp add: slice_last_def)
next
  case False
  with assms have len: "length h = 100" by simp
  then have "h \<noteq> []" by auto
  then show ?thesis using len by (simp add: slice_last_def drop_Suc)
qed

lemma slice_last_length_eq: "length (slice_last n xs) = min n (length xs)"
  by (simp add: slice_last_def)

lemma update_isRunning: "isRunning (update tm a) = isRunning a"
  by (simp add: update_def Let_def)

lemma update_count_inv:
  assumes inv: "count_inv a" and fin: "is_fin tm"
    and mono: "\<forall>p. lastTimeRef a = Some p \<longrightarrow> \<not> js_gt p tm"
  shows "count_inv (update tm a)"
proof (cases "lastTimeRef a \<noteq> None \<and> isRunning a")
  case False
  then have "update tm a = a\<lparr>lastTimeRef := Some tm\<rparr>" by (intro update_idle) auto
  with inv fin show ?thesis by (simp add: count_inv_def)
next
  case True
  then obtain p where p: "lastTimeRef a = Some p" and running: "isRunning a" by auto
  from fin obtain tr where tr: "tm = Fin tr" by (rule is_finE)
  from inv p have "is_fin p" by (simp add: count_inv_def)
  then obtain pr where pr: "p = Fin pr" by (rule is_finE)
  from mono p tr pr have le: "pr \<le> tr" by simp
  from le obtain d where d: "frame_dt (Fin tr) (Fin pr) = Fin d" "0 \<le> d" "d \<le> 32 / 1000"
    by (rule frame_dt_Fin)
  from inv obtain t where t: "time (state a) = Fin t" "0 \<le> t"
    and len: "length (history a) = min 100 (nat \<lfloor>t * 20\<rfloor>)"
    unfolding count_inv_def by blast
  let ?a' = "update tm a"
  have t': "time (state ?a') = Fin (t + d)"
    using p running t(1) d(1) unfolding tr pr by (rule update_time_Fin)
  have anchor: "\<forall>q. lastTimeRef ?a' = Some q \<longrightarrow> is_fin q"
    using fin by (simp add: update_anchor)
  have nonneg: "0 \<le> t + d" using t(2) d(2) by simp
  define B where "B = \<lfloor>(t + d) * 20\<rfloor>"
  have lower: "\<lfloor>t * 20\<rfloor> \<le> B" unfolding B_def using d(2) by (intro floor20_mono) simp
  have upper: "B \<le> \<lfloor>t * 20\<rfloor> + 1"
  proof -
    have "(t + d) * 20 < of_int (\<lfloor>t * 20\<rfloor> + 2)"
    proof -
      have "t * 20 < of_int \<lfloor>t * 20\<rfloor> + 1" by linarith
      moreover have "d * 20 < 1" using d(3) by simp
      ultimately show ?thesis by (simp add: algebra_simps)
    qed
    then have "B < \<lfloor>t * 20\<rfloor> + 2" unfolding B_def by (simp only: floor_less_iff)
    then show ?thesis by simp
  qed
  have b0: "0 \<le> \<lfloor>t * 20\<rfloor>" using t(2) by simp
  have hist: "history ?a' =
      (if \<lfloor>t * 20\<rfloor> < B then slice_last 100 (history a @ [newPoint (state ?a')]) else history a)"
    using update_history [OF p running, of tm] t' t(1) by (simp add: B_def)
  have "length (history ?a') = min 100 (nat B)"
  proof (cases "\<lfloor>t * 20\<rfloor> < B")
    case False
    with lower have "B = \<lfloor>t * 20\<rfloor>" by simp
    with hist len show ?thesis by simp
  next
    case True
    with upper have B: "B = \<lfloor>t * 20\<rfloor> + 1" by simp
    have "nat B = Suc (nat \<lfloor>t * 20\<rfloor>)" unfolding B using b0 by linarith
    with hist True len show ?thesis by (simp add: slice_last_length_eq)
  qed
  with t' nonneg anchor show ?thesis
    unfolding count_inv_def B_def by (intro conjI exI [of _ "t + d"]) simp_all
qed

lemma initial_count_inv: "count_inv (initial_app\<lparr>config := c, isRunning := b\<rparr>)"
  by (simp add: count_inv_def initial_app_def INITIAL_STATE_def)

lemma step_count_inv:
  assumes "count_inv a" "stamps_ok (lastTimeRef a) (e # es)"
  shows "count_inv (step e a)"
proof (cases e)
  case (Tick tm)
  with assms(2) have fin: "is_fin tm"
    and mono: "\<forall>p. lastTimeRef a = Some p \<longrightarrow> \<not> js_gt p tm"
    by (auto split: option.splits)
  from assms(1) fin mono have "count_inv (update tm a)" by (rule update_count_inv)
  with Tick show ?thesis by simp
next
  case (SetIsRunning b)
  with assms show ?thesis by (simp add: count_inv_def)
next
  case (SetConfig c)
  with assms show ?thesis by (simp add: count_inv_def)
next
  case Reset
  have "count_inv (resetState a)"
    unfolding resetState_initial by (rule initial_count_inv)
  with Reset show ?thesis by simp
qed

lemma stamps_ok_step:
  assumes "stamps_ok (lastTimeRef a) (e # es)"
  shows "stamps_ok (lastTimeRef (step e a)) es"
  using assms by (cases e) (simp_all add: update_anchor resetState_def)

lemma run_count_inv:
  "count_inv a \<Longrightarrow> stamps_ok (lastTimeRef a) es \<Longrightarrow> count_inv (run es a)"
proof (induction es arbitrary: a)
  case Nil
  then show ?case by simp
next
  case (Cons e es)
  from Cons.prems have "count_inv (step e a)" by (rule step_count_inv)
  moreover from Cons.prems(2) have "stamps_ok (lastTimeRef (step e a)) es"
    by (rule stamps_ok_step)
  ultimately show ?case using Cons.IH by simp
qed

lemma run_append: "run (es @ es') a = run es' (run es a)"
  by (induction es arbitrary: a) simp_all

lemma stamps_ok_append:
  "stamps_ok (lastTimeRef a) (es @ es')
   \<longleftrightarrow> stamps_ok (lastTimeRef a) es \<and> stamps_ok (lastTimeRef (run es a)) es'"
proof (induction es arbitrary: a)
  case Nil
  show ?case by simp
next
  case (Cons e es)
  show ?case
  proof (cases e)
    case (Tick tm)
    with Cons [of "update tm a"] show ?thesis by (simp add: update_anchor)
  next
    case (SetIsRunning b)
    with Cons [of "a\<lparr>isRunning := b\<rparr>"] show ?thesis by simp
  next
    case (SetConfig c)
    with Cons [of "a\<lparr>config := c\<rparr>"] show ?thesis by simp
  next
    case Reset
    with Cons [of "resetState a"] show ?thesis by (simp add: resetState_def)
  qed
qed

lemma steady_frames_Suc:
  "steady_frames (Suc n) = steady_frames n @ [Tick (Fin (32 * real (Suc n)))]"
  by (simp add: steady_frames_def)

lemma steady_frame_dt: "frame_dt (Fin (32 * real (Suc n))) (Fin (32 * real n)) = Fin (32 / 1000)"
  by (simp add: frame_dt_def minus_jsnum_def algebra_simps)

lemma steady_run:
  "time (state (run (steady_frames n) (initial_app\<lparr>isRunning := True\<rparr>))) = Fin (32 / 1000 * real n)
   \<and> lastTimeRef (run (steady_frames n) (initial_app\<lparr>isRunning := True\<rparr>)) = Some (Fin (32 * real n))
   \<and> isRunning (run (steady_frames n) (initial_app\<lparr>isRunning := True\<rparr>))
   \<and> stamps_ok None (steady_frames n)"
proof (induction n)
  case 0
  have "update (Fin 0) (initial_app\<lparr>isRunning := True\<rparr>)
      = initial_app\<lparr>isRunning := True, lastTimeRef := Some (Fin 0)\<rparr>"
    by (simp add: update_idle initial_app_def)
  then show ?case
    by (simp add: steady_frames_def initial_app_def INITIAL_STATE_def)
next
  case (Suc n)
  let ?b = "run (steady_frames n) (initial_app\<lparr>isRunning := True\<rparr>)"
  let ?tm = "Fin (32 * real (Suc n))"
  from Suc have t: "time (state ?b) = Fin (32 / 1000 * real n)"
    and p: "lastTimeRef ?b = Some (Fin (32 * real n))" and r: "isRunning ?b"
    and ok: "stamps_ok None (steady_frames n)" by simp_all
  have run: "run (steady_frames (Suc n)) (initial_app\<lparr>isRunning := True\<rparr>) = update ?tm ?b"
    by (simp add: steady_frames_Suc run_append)
  have "time (state (update ?tm ?b)) = Fin (32 / 1000 * real n + 32 / 1000)"
    using p r t steady_frame_dt by (rule update_time_Fin)
  then have t': "time (state (update ?tm ?b)) = Fin (32 / 1000 * real (Suc n))"
    by (simp add: algebra_simps)
  have none: "lastTimeRef (initial_app\<lparr>isRunning := True\<rparr>) = None"
    by (simp add: initial_app_def)
  have "stamps_ok (lastTimeRef (initial_app\<lparr>isRunning := True\<rparr>)) (steady_frames n @ [Tick ?tm])"
    unfolding stamps_ok_append using ok p by (simp add: none)
  then have ok': "stamps_ok None (steady_frames (Suc n))"
    by (simp add: steady_frames_Suc none)
  from t' ok' show ?case unfolding run by (simp add: update_anchor update_isRunning r)
qed

lemma update_history_exact:
  "history (update tm a) =
     (if lastTimeRef a \<noteq> None \<and> isRunning a
         \<and> js_gt (Math_floor (time (state (update tm a)) * Fin 20))
                 (Math_floor (time (state a) * Fin 20))
      then slice_last 100 (history a @ [newPoint (state (update tm a))])
      else history a)"
proof (cases "lastTimeRef a \<noteq> None \<and> isRunning a")
  case True
  then obtain p where "lastTimeRef a = Some p" "isRunning a" by auto
  then show ?thesis by (simp add: update_history)
next
  case False
  then have "update tm a = a\<lparr>lastTimeRef := Some tm\<rparr>" by (intro update_idle) auto
  with False show ?thesis by auto
qed

section \<open>Finite arithmetic\<close>

lemma is_fin_plus: "is_fin x \<Longrightarrow> is_fin y \<Longrightarrow> is_fin (x + y)"
  by (cases x; cases y) simp_all

lemma is_fin_uminus: "is_fin x \<Longrightarrow> is_fin (- x)"
  by (cases x) simp_all

lemma is_fin_minus: "is_fin x \<Longrightarrow> is_fin y \<Longrightarrow> is_fin (x - y)"
  by (simp add: minus_jsnum_def is_fin_plus is_fin_uminus)

lemma is_fin_times: "is_fin x \<Longrightarrow> is_fin y \<Longrightarrow> is_fin (x * y)"
  by (cases x; cases y) simp_all

lemma is_fin_divide: "is_fin x \<Longrightarrow> js_pos y \<Longrightarrow> is_fin (x / y)"
  by (cases x; cases y) simp_all

lemma is_fin_sin: "is_fin x \<Longrightarrow> is_fin (Math_sin x)"
  by (cases x) simp_all

lemma is_fin_cos: "is_fin x \<Longrightarrow> is_fin (Math_cos x)"
  by (cases x) simp_all

lemma js_pos_fin: "js_pos x \<Longrightarrow> is_fin x"
  by (cases x) simp_all

lemma js_nonneg_fin: "js_nonneg x \<Longrightarrow> is_fin x"
  by (cases x) simp_all

lemma js_pos_times: "js_pos x \<Longrightarrow> js_pos y \<Longrightarrow> js_pos (x * y)"
  by (cases x; cases y) simp_all

lemmas is_fin_intros =
  is_fin_plus is_fin_minus is_fin_uminus is_fin_times is_fin_divide is_fin_sin is_fin_cos

lemma den_real_pos:
  fixes a b :: real
  assumes "0 < a" "0 < b"
  shows "0 < 2 * a + b - b * cos x"
proof -
  have "b * cos x \<le> b * 1" using assms(2) by (intro mult_left_mono) simp_all
  with assms(1) show ?thesis by simp
qed

lemma spec_den_pos:
  assumes "js_pos (m1 c)" "js_pos (m2 c)" "is_fin th1" "is_fin th2"
  shows "js_pos (spec_den th1 th2 c)"
proof -
  from assms(1) obtain a where a: "m1 c = Fin a" "0 < a" by (cases "m1 c") simp_all
  from assms(2) obtain b where b: "m2 c = Fin b" "0 < b" by (cases "m2 c") simp_all
  from assms(3) obtain u where u: "th1 = Fin u" by (rule is_finE)
  from assms(4) obtain v where v: "th2 = Fin v" by (rule is_finE)
  show ?thesis
    using den_real_pos [OF a(2) b(2), of "2 * u - 2 * v"]
    by (simp add: spec_den_def a b u v minus_jsnum_def)
qed

lemma spec_a1_fin:
  assumes "positive_config c" "is_fin th1" "is_fin om1" "is_fin th2" "is_fin om2"
  shows "is_fin (spec_a1 th1 om1 th2 om2 c)"
proof -
  from assms(1) have pos: "js_pos (L1 c)" "js_pos (L2 c)" "js_pos (m1 c)" "js_pos (m2 c)"
    and fin: "is_fin (g c)" by (simp_all add: positive_config_def)
  note cfg = pos [THEN js_pos_fin] fin
  have "js_pos (L1 c * spec_den th1 th2 c)"
    using pos assms by (intro js_pos_times spec_den_pos)
  then show ?thesis
    unfolding spec_a1_def Let_def
    using cfg assms(2-) by (intro is_fin_intros) (simp_all add: is_fin_intros)
qed

lemma spec_a2_fin:
  assumes "positive_config c" "is_fin th1" "is_fin om1" "is_fin th2" "is_fin om2"
  shows "is_fin (spec_a2 th1 om1 th2 om2 c)"
proof -
  from assms(1) have pos: "js_pos (L1 c)" "js_pos (L2 c)" "js_pos (m1 c)" "js_pos (m2 c)"
    and fin: "is_fin (g c)" by (simp_all add: positive_config_def)
  note cfg = pos [THEN js_pos_fin] fin
  have "js_pos (L2 c * spec_den th1 th2 c)"
    using pos assms by (intro js_pos_times spec_den_pos)
  then show ?thesis
    unfolding spec_a2_def Let_def
    using cfg assms(2-) by (intro is_fin_intros) (simp_all add: is_fin_intros)
qed

lemma derivatives_fin:
  assumes "positive_config c" "is_fin th1" "is_fin om1" "is_fin th2" "is_fin om2"
  shows "list_all is_fin (derivatives [th1, om1, th2, om2] c)"
proof -
  from assms(1) have "is_fin (damping c)" by (simp add: positive_config_def)
  with assms spec_a1_fin [OF assms] spec_a2_fin [OF assms] show ?thesis
    by (simp add: derivatives_vec is_fin_intros)
qed

lemma fin_times_zero: "is_fin k \<Longrightarrow> k * Fin 0 = Fin 0"
  by (cases k) simp_all

lemma fin_plus_zero: "is_fin v \<Longrightarrow> v + Fin 0 = v"
  by (cases v) simp_all

lemma zero_times_fin: "is_fin k \<Longrightarrow> Fin 0 * k = Fin 0"
  by (cases k) simp_all

lemma rk4_zero_dt:
  assumes "finite_channels s" "positive_config c"
  shows "rk4 s c (Fin 0) = s"
proof -
  from assms(1) have fin: "is_fin (theta1 s)" "is_fin (omega1 s)" "is_fin (theta2 s)" "is_fin (omega2 s)"
    by (simp_all add: finite_channels_def)
  let ?y = "[theta1 s, omega1 s, theta2 s, omega2 s]"
  let ?k = "derivatives ?y c"
  have kfin: "list_all is_fin ?k" using assms(2) fin by (rule derivatives_fin)
  obtain p q r u where k: "?k = [p, q, r, u]" using derivatives_length by (rule length4E)
  with kfin have pf: "is_fin p" "is_fin q" "is_fin r" "is_fin u" by simp_all
  have half: "map_idx (\<lambda>v i. v + idx ?k i * Fin 0 / Fin 2) ?y = ?y"
    unfolding k using pf fin by (simp add: map_idx4 idx_def fin_times_zero fin_plus_zero)
  have full: "map_idx (\<lambda>v i. v + idx ?k i * Fin 0) ?y = ?y"
    unfolding k using pf fin by (simp add: map_idx4 idx_def fin_times_zero fin_plus_zero)
  have sum: "map_idx (\<lambda>v i. v + (Fin 0 / Fin 6)
      * (idx ?k i + Fin 2 * idx ?k i + Fin 2 * idx ?k i + idx ?k i)) ?y = ?y"
    unfolding k using pf fin
    by (simp add: map_idx4 idx_def zero_times_fin fin_plus_zero is_fin_intros)
  have "time s + Fin 0 = time s" by (cases "time s") simp_all
  then show ?thesis
    unfolding rk4_def Let_def half full sum by (simp add: idx_def)
qed

section \<open>Degenerate values and the equilibrium\<close>

lemma NaN_absorbs: "NaN + x = NaN" "x + NaN = NaN" "x * NaN = NaN"
  by (cases x; simp)+

lemma rk4_omega1_NaN:
  assumes "derivatives [theta1 s, omega1 s, theta2 s, omega2 s] c ! 1 = NaN"
  shows "omega1 (rk4 s c dt) = NaN"
  using assms unfolding rk4_def Let_def
  by (simp add: map_idx4 idx_def derivatives_length NaN_absorbs)

lemma derivatives_rest:
  assumes "valid_config c"
  shows "derivatives [Fin 0, Fin 0, Fin 0, Fin 0] c = [Fin 0, Fin 0, Fin 0, Fin 0]"
proof -
  from assms obtain l1 l2 a b gr dm where c:
    "L1 c = Fin l1" "0 < l1" "L2 c = Fin l2" "0 < l2" "m1 c = Fin a" "0 < a"
    "m2 c = Fin b" "0 < b" "g c = Fin gr" "damping c = Fin dm"
    unfolding valid_config_def
    by (metis js_pos.elims(2) js_nonneg.elims(2))
  show ?thesis
    using c(2,4,6,8)
    by (simp add: derivatives_def Let_def idx_def minus_jsnum_def
        c(1) c(3) c(5) c(7) c(9) c(10))
qed

lemma rk4_rest:
  assumes "valid_config c" "at_rest s" "is_fin dt"
  shows "at_rest (rk4 s c dt)"
proof -
  from assms(3) obtain d where d: "dt = Fin d" by (rule is_finE)
  from assms(2) have s: "theta1 s = Fin 0" "omega1 s = Fin 0" "theta2 s = Fin 0" "omega2 s = Fin 0"
    by (simp_all add: at_rest_def)
  note k = derivatives_rest [OF assms(1)]
  have half: "map_idx (\<lambda>v i. v + idx [Fin 0, Fin 0, Fin 0, Fin 0] i * Fin d / Fin 2)
      [Fin 0, Fin 0, Fin 0, Fin 0] = [Fin 0, Fin 0, Fin 0, Fin 0]"
    by (simp add: map_idx4 idx_def)
  have full: "map_idx (\<lambda>v i. v + idx [Fin 0, Fin 0, Fin 0, Fin 0] i * Fin d)
      [Fin 0, Fin 0, Fin 0, Fin 0] = [Fin 0, Fin 0, Fin 0, Fin 0]"
    by (simp add: map_idx4 idx_def)
  show ?thesis
    unfolding rk4_def Let_def s d k half full
    by (simp add: at_rest_def map_idx4 idx_def)
qed

lemma rk4_steps_rest:
  "valid_config c \<Longrightarrow> at_rest s \<Longrightarrow> list_all is_fin dts \<Longrightarrow> at_rest (rk4_steps dts c s)"
  by (induction dts arbitrary: s) (simp_all add: rk4_rest)

lemma rk4_steps_time: "time (rk4_steps dts c s) = foldl (+) (time s) dts"
  by (induction dts arbitrary: s) (simp_all add: rk4_time)

lemma funpow_rk4_rest:
  "valid_config c \<Longrightarrow> at_rest s \<Longrightarrow> is_fin dt \<Longrightarrow> at_rest (((\<lambda>s. rk4 s c dt) ^^ n) s)"
  by (induction n) (simp_all add: rk4_rest)

lemma frame_dt_fin: "is_fin tm \<Longrightarrow> is_fin p \<Longrightarrow> is_fin (frame_dt tm p / Fin 10)"
  by (cases tm; cases p) (simp_all add: frame_dt_def minus_jsnum_def)

lemma update_rest:
  assumes "valid_config (config a)" "at_rest (state a)" "is_fin tm"
    "\<forall>p. lastTimeRef a = Some p \<longrightarrow> is_fin p"
  shows "at_rest (state (update tm a))"
proof (cases "lastTimeRef a \<noteq> None \<and> isRunning a")
  case True
  then obtain p where p: "lastTimeRef a = Some p" and running: "isRunning a" by auto
  with assms(4) have "is_fin p" by simp
  with assms(3) have "is_fin (frame_dt tm p / Fin 10)" by (rule frame_dt_fin)
  with assms(1,2) show ?thesis
    unfolding update_running [OF p running] by (rule funpow_rk4_rest)
next
  case False
  then have "update tm a = a\<lparr>lastTimeRef := Some tm\<rparr>" by (intro update_idle) auto
  with assms(2) show ?thesis by simp
qed

lemma update_config: "config (update tm a) = config a"
  by (simp add: update_def Let_def)

lemma js_between_fin: "js_between lo hi x \<Longrightarrow> is_fin x"
  by (cases x) simp_all

lemma js_between_pos: "0 < lo \<Longrightarrow> js_between lo hi x \<Longrightarrow> js_pos x"
  by (cases x) simp_all

lemma js_between_nonneg: "0 \<le> lo \<Longrightarrow> js_between lo hi x \<Longrightarrow> js_nonneg x"
  by (cases x) simp_all

lemma slider_config_valid: "slider_config c \<Longrightarrow> valid_config c"
  unfolding slider_config_def valid_config_def
  by (meson js_between_pos js_between_nonneg divide_pos_pos zero_less_numeral zero_less_one order_refl)

lemma slider_config_positive: "slider_config c \<Longrightarrow> positive_config c"
  unfolding slider_config_def positive_config_def
  by (meson js_between_pos js_between_fin divide_pos_pos zero_less_numeral zero_less_one)

lemma bounded_channels_finite: "bounded_channels s \<Longrightarrow> finite_channels s"
  unfolding bounded_channels_def finite_channels_def
  by (meson js_between_fin)

lemma derivatives_first: "derivatives [th1, om1, th2, om2] c ! 0 = om1"
  by (simp add: derivatives_vec)

lemma run_quiet_rest:
  "slider_config (config a) \<Longrightarrow> at_rest (state a) \<Longrightarrow> list_all quiet_event es
   \<Longrightarrow> stamps_ok (lastTimeRef a) es \<Longrightarrow> at_rest (state (run es a))"
proof (induction es arbitrary: a)
  case Nil
  then show ?case by simp
next
  case (Cons e es)
  from Cons.prems(3) have q: "quiet_event e" and qs: "list_all quiet_event es" by simp_all
  from Cons.prems(4) have ok: "stamps_ok (lastTimeRef (step e a)) es" by (rule stamps_ok_step)
  have "slider_config (config (step e a)) \<and> at_rest (state (step e a))"
  proof (cases e)
    case (Tick tm)
    with Cons.prems(4) have fin: "is_fin tm"
      and anchor: "\<forall>p. lastTimeRef a = Some p \<longrightarrow> is_fin p"
      by (auto split: option.splits)
    from Cons.prems(1) have "valid_config (config a)" by (rule slider_config_valid)
    from this Cons.prems(2) fin anchor have "at_rest (state (update tm a))"
      by (rule update_rest)
    with Cons.prems(1) Tick show ?thesis by (simp add: update_config)
  next
    case (SetIsRunning b)
    with Cons.prems show ?thesis by simp
  next
    case (SetConfig c)
    with Cons.prems(2) q show ?thesis by simp
  next
    case Reset
    with q show ?thesis by simp
  qed
  with qs ok Cons.IH [of "step e a"] show ?case by simp
qed

section \<open>Rounding of the history samples\<close>

lemma toFixed_Number_rounds:
  fixes x :: real
  assumes "\<bar>x\<bar> < 10 ^ 21"
  shows "\<exists>n::int. toFixed_Number f (Fin x) = Fin (of_int n / 10 ^ f)
           \<and> \<bar>of_int n / 10 ^ f - x\<bar> \<le> 1 / (2 * 10 ^ f)"
proof -
  define m where "m = \<lfloor>\<bar>x\<bar> * 10 ^ f + 1 / 2\<rfloor>"
  define n where "n = (if x < 0 then - m else m)"
  have pw: "(0::real) < 10 ^ f" by simp
  have lo: "of_int m \<le> \<bar>x\<bar> * 10 ^ f + 1 / 2" unfolding m_def by (rule of_int_floor_le)
  have hi: "\<bar>x\<bar> * 10 ^ f + 1 / 2 < of_int m + 1" unfolding m_def by linarith
  have close: "\<bar>of_int m - \<bar>x\<bar> * 10 ^ f\<bar> \<le> 1 / 2" using lo hi by linarith
  have m0: "x = 0 \<Longrightarrow> m = 0" unfolding m_def by simp
  have val: "sgn x * of_int m = of_int n"
    using m0 by (cases "x < 0"; cases "x = 0") (simp_all add: n_def sgn_if)
  have "\<bar>of_int n - x * 10 ^ f\<bar> = \<bar>of_int m - \<bar>x\<bar> * 10 ^ f\<bar>"
    by (cases "x < 0") (simp_all add: n_def abs_if)
  with close have "\<bar>of_int n - x * 10 ^ f\<bar> \<le> 1 / 2" by simp
  then have "\<bar>of_int n - x * 10 ^ f\<bar> / 10 ^ f \<le> (1 / 2) / 10 ^ f"
    using pw by (intro divide_right_mono) simp_all
  moreover have "\<bar>of_int n - x * 10 ^ f\<bar> / 10 ^ f = \<bar>of_int n / 10 ^ f - x\<bar>"
  proof -
    have "of_int n / 10 ^ f - x = (of_int n - x * 10 ^ f) / 10 ^ f"
      by (simp add: field_simps)
    then show ?thesis using pw by (simp add: abs_divide del: of_int_diff)
  qed
  ultimately have bound: "\<bar>of_int n / 10 ^ f - x\<bar> \<le> 1 / (2 * 10 ^ f)" by simp
  have "toFixed_Number f (Fin x) = Fin (of_int n / 10 ^ f)"
    using assms val by (simp add: m_def [symmetric])
  with bound show ?thesis by blast
qed

lemma degrees_Fin: "Fin x * Fin 180 / Math_PI = Fin (x * 180 / pi)"
  by (simp add: Math_PI_def)

lemma newPoint_time_rounds:
  assumes "time s = Fin t" "\<bar>t\<bar> < 10 ^ 21"
  shows "\<exists>n::int. hp_time (newPoint s) = Fin (of_int n / 100)
            \<and> \<bar>of_int n / 100 - t\<bar> \<le> 1 / 200"
proof -
  from toFixed_Number_rounds [OF assms(2), of 2]
  obtain n :: int where "toFixed_Number 2 (Fin t) = Fin (of_int n / 10 ^ 2)"
    "\<bar>of_int n / 10 ^ 2 - t\<bar> \<le> 1 / (2 * 10 ^ 2)" by blast
  then have "hp_time (newPoint s) = Fin (of_int n / 100) \<and> \<bar>of_int n / 100 - t\<bar> \<le> 1 / 200"
    by (simp add: newPoint_def assms(1))
  then show ?thesis ..
qed

lemma degrees_rounds:
  assumes "th = Fin x" "\<bar>x * 180 / pi\<bar> < 10 ^ 21"
  shows "\<exists>n::int. toFixed_Number 1 (th * Fin 180 / Math_PI) = Fin (of_int n / 10)
            \<and> \<bar>of_int n / 10 - x * 180 / pi\<bar> \<le> 1 / 20"
proof -
  from toFixed_Number_rounds [OF assms(2), of 1]
  obtain n :: int where n: "toFixed_Number 1 (Fin (x * 180 / pi)) = Fin (of_int n / 10 ^ 1)"
    "\<bar>of_int n / 10 ^ 1 - x * 180 / pi\<bar> \<le> 1 / (2 * 10 ^ 1)" by blast
  have "th * Fin 180 / Math_PI = Fin (x * 180 / pi)"
    unfolding assms(1) by (rule degrees_Fin)
  with n have "toFixed_Number 1 (th * Fin 180 / Math_PI) = Fin (of_int n / 10)
      \<and> \<bar>of_int n / 10 - x * 180 / pi\<bar> \<le> 1 / 20"
    by simp
  then show ?thesis ..
qed

section \<open>The claims about the driver, the history and the reset\<close>

text \<open>
  Claim C3. On a frame that finds an anchor \<open>p\<close> and the running flag set, the driver
  takes \<open>frame_dt = min((tm - p) / 1000, 0.032)\<close>, divides it into 10 sub-steps of
  \<open>frame_dt / 10\<close> and applies \<open>rk4\<close> ten times in sequence, each to the state the call
  before returned; the simulation time is the old time with the sub-step added ten
  times.
\<close>

theorem tick_substeps:
  assumes "lastTimeRef a = Some p" and "isRunning a"
  shows "state (update tm a)
           = ((\<lambda>s. rk4 s (config a) (frame_dt tm p / Fin 10)) ^^ 10) (state a)
    \<and> time (state (update tm a))
           = ((\<lambda>t. t + frame_dt tm p / Fin 10) ^^ 10) (time (state a))"
  using assms by (simp only: update_running funpow_rk4_time simp_thms)

theorem tick_substeps_witness:
  "lastTimeRef (initial_app\<lparr>isRunning := True, lastTimeRef := Some (Fin 0)\<rparr>) = Some (Fin 0)
   \<and> isRunning (initial_app\<lparr>isRunning := True, lastTimeRef := Some (Fin 0)\<rparr>)
   \<and> state (update (Fin 16) (initial_app\<lparr>isRunning := True, lastTimeRef := Some (Fin 0)\<rparr>))
       = ((\<lambda>s. rk4 s INITIAL_CONFIG (Fin (16 / 10000))) ^^ 10) INITIAL_STATE
   \<and> time (state (update (Fin 16) (initial_app\<lparr>isRunning := True, lastTimeRef := Some (Fin 0)\<rparr>)))
       = Fin (16 / 1000)"
proof -
  let ?a = "initial_app\<lparr>isRunning := True, lastTimeRef := Some (Fin 0)\<rparr>"
  have 1: "lastTimeRef ?a = Some (Fin 0)" by simp
  have 2: "isRunning ?a" by simp
  have sub: "frame_dt (Fin 16) (Fin 0) / Fin 10 = Fin (16 / 10000)"
    by (simp add: frame_dt_def minus_jsnum_def)
  have cfg: "config ?a = INITIAL_CONFIG" and st: "state ?a = INITIAL_STATE"
    by (simp_all add: initial_app_def)
  have tm: "time INITIAL_STATE = Fin 0" by (simp add: INITIAL_STATE_def)
  have "((\<lambda>t. t + Fin (16 / 10000)) ^^ 10) (Fin 0) = Fin (0 + of_nat 10 * (16 / 10000))"
    by (rule funpow_add_Fin)
  then have adv: "((\<lambda>t. t + Fin (16 / 10000)) ^^ 10) (Fin 0) = Fin (16 / 1000)" by simp
  from tick_substeps [OF 1 2, of "Fin 16"] 1 2 show ?thesis
    unfolding sub cfg st tm adv by (intro conjI) blast+
qed

text \<open>
  Claim C4. A frame that finds no anchor, or finds the running flag unset, leaves the
  pendulum state and the history as they are and still moves the anchor to its
  timestamp. A frame after a resume therefore integrates over the interval since the
  paused frame, whatever the anchor was before the pause.
\<close>

theorem tick_idle:
  assumes "lastTimeRef a = None \<or> \<not> isRunning a"
  shows "state (update tm a) = state a \<and> history (update tm a) = history a
    \<and> lastTimeRef (update tm a) = Some tm
    \<and> state (update tm' ((update tm a)\<lparr>isRunning := True\<rparr>))
        = ((\<lambda>s. rk4 s (config a) (frame_dt tm' tm / Fin 10)) ^^ 10) (state a)"
proof -
  from assms have idle: "update tm a = a\<lparr>lastTimeRef := Some tm\<rparr>" by (rule update_idle)
  have "state (update tm' (a\<lparr>lastTimeRef := Some tm, isRunning := True\<rparr>))
        = ((\<lambda>s. rk4 s (config a) (frame_dt tm' tm / Fin 10)) ^^ 10) (state a)"
    using update_running [of "a\<lparr>lastTimeRef := Some tm, isRunning := True\<rparr>" tm tm'] by simp
  with idle show ?thesis by simp
qed

theorem tick_idle_witness:
  "(lastTimeRef initial_app = None \<or> \<not> isRunning initial_app)
   \<and> state (update (Fin 5) initial_app) = INITIAL_STATE
   \<and> history (update (Fin 5) initial_app) = []
   \<and> lastTimeRef (update (Fin 5) initial_app) = Some (Fin 5)"
proof -
  have 1: "lastTimeRef initial_app = None \<or> \<not> isRunning initial_app"
    by (simp add: initial_app_def)
  have "state initial_app = INITIAL_STATE" "history initial_app = []"
    by (simp_all add: initial_app_def)
  with tick_idle [OF 1, of "Fin 5"] 1 show ?thesis by simp
qed

text \<open>
  Claim C5. On a running frame one point is appended to the history exactly when
  \<open>floor(new_time * 20) > floor(old_time * 20)\<close>, the history being cut to its last 100
  entries afterwards, and is left alone otherwise. The point carries the new time
  rounded to the nearest hundredth and both angles in degrees rounded to the nearest
  tenth (for values below \<open>10\<^sup>2\<^sup>1\<close> in magnitude, where \<^verbatim>\<open>toFixed\<close> prints decimals).
\<close>

theorem tick_history_sample:
  assumes "lastTimeRef a = Some p" and "isRunning a"
  shows "history (update tm a) =
      (if js_gt (Math_floor (time (state (update tm a)) * Fin 20))
                (Math_floor (time (state a) * Fin 20))
       then slice_last 100 (history a @ [newPoint (state (update tm a))])
       else history a)
    \<and> (time (state (update tm a)) = Fin t \<and> \<bar>t\<bar> < 10 ^ 21 \<longrightarrow>
         (\<exists>n::int. hp_time (newPoint (state (update tm a))) = Fin (of_int n / 100)
            \<and> \<bar>of_int n / 100 - t\<bar> \<le> 1 / 200))
    \<and> (theta1 (state (update tm a)) = Fin x1 \<and> \<bar>x1 * 180 / pi\<bar> < 10 ^ 21 \<longrightarrow>
         (\<exists>n::int. hp_theta1 (newPoint (state (update tm a))) = Fin (of_int n / 10)
            \<and> \<bar>of_int n / 10 - x1 * 180 / pi\<bar> \<le> 1 / 20))
    \<and> (theta2 (state (update tm a)) = Fin x2 \<and> \<bar>x2 * 180 / pi\<bar> < 10 ^ 21 \<longrightarrow>
         (\<exists>n::int. hp_theta2 (newPoint (state (update tm a))) = Fin (of_int n / 10)
            \<and> \<bar>of_int n / 10 - x2 * 180 / pi\<bar> \<le> 1 / 20))"
proof (intro conjI impI)
  show "history (update tm a) =
      (if js_gt (Math_floor (time (state (update tm a)) * Fin 20))
                (Math_floor (time (state a) * Fin 20))
       then slice_last 100 (history a @ [newPoint (state (update tm a))])
       else history a)"
    using assms by (rule update_history)
next
  assume "time (state (update tm a)) = Fin t \<and> \<bar>t\<bar> < 10 ^ 21"
  then show "\<exists>n::int. hp_time (newPoint (state (update tm a))) = Fin (of_int n / 100)
            \<and> \<bar>of_int n / 100 - t\<bar> \<le> 1 / 200"
    by (intro newPoint_time_rounds) simp_all
next
  assume "theta1 (state (update tm a)) = Fin x1 \<and> \<bar>x1 * 180 / pi\<bar> < 10 ^ 21"
  then have "theta1 (state (update tm a)) = Fin x1" "\<bar>x1 * 180 / pi\<bar> < 10 ^ 21" by simp_all
  from degrees_rounds [OF this]
  show "\<exists>n::int. hp_theta1 (newPoint (state (update tm a))) = Fin (of_int n / 10)
            \<and> \<bar>of_int n / 10 - x1 * 180 / pi\<bar> \<le> 1 / 20"
    by (simp add: newPoint_def)
next
  assume "theta2 (state (update tm a)) = Fin x2 \<and> \<bar>x2 * 180 / pi\<bar> < 10 ^ 21"
  then have "theta2 (state (update tm a)) = Fin x2" "\<bar>x2 * 180 / pi\<bar> < 10 ^ 21" by simp_all
  from degrees_rounds [OF this]
  show "\<exists>n::int. hp_theta2 (newPoint (state (update tm a))) = Fin (of_int n / 10)
            \<and> \<bar>of_int n / 10 - x2 * 180 / pi\<bar> \<le> 1 / 20"
    by (simp add: newPoint_def)
qed

theorem tick_history_sample_witness:
  "lastTimeRef (\<lparr>config = INITIAL_CONFIG,
       state = \<lparr>theta1 = Fin 0, omega1 = Fin 0, theta2 = Fin 0, omega2 = Fin 0, time = Fin (4 / 100)\<rparr>,
       isRunning = True, history = [], lastTimeRef = Some (Fin 0)\<rparr>) = Some (Fin 0)
   \<and> isRunning (\<lparr>config = INITIAL_CONFIG,
       state = \<lparr>theta1 = Fin 0, omega1 = Fin 0, theta2 = Fin 0, omega2 = Fin 0, time = Fin (4 / 100)\<rparr>,
       isRunning = True, history = [], lastTimeRef = Some (Fin 0)\<rparr>)
   \<and> history (update (Fin 1000) \<lparr>config = INITIAL_CONFIG,
       state = \<lparr>theta1 = Fin 0, omega1 = Fin 0, theta2 = Fin 0, omega2 = Fin 0, time = Fin (4 / 100)\<rparr>,
       isRunning = True, history = [], lastTimeRef = Some (Fin 0)\<rparr>)
     = [\<lparr>hp_time = Fin (7 / 100), hp_theta1 = Fin 0, hp_theta2 = Fin 0\<rparr>]
   \<and> (\<exists>n::int. Fin (7 / 100) = Fin (of_int n / 100) \<and> \<bar>of_int n / 100 - 72 / 1000\<bar> \<le> (1 / 200 :: real))
   \<and> (\<exists>n::int. Fin 0 = Fin (of_int n / 10) \<and> \<bar>of_int n / 10 - 0 * 180 / pi\<bar> \<le> (1 / 20 :: real))"
proof -
  define a where "a = \<lparr>config = INITIAL_CONFIG,
       state = \<lparr>theta1 = Fin 0, omega1 = Fin 0, theta2 = Fin 0, omega2 = Fin 0, time = Fin (4 / 100)\<rparr>,
       isRunning = True, history = [], lastTimeRef = Some (Fin 0)\<rparr>"
  have 1: "lastTimeRef a = Some (Fin 0)" and 2: "isRunning a" by (simp_all add: a_def)
  have old: "time (state a) = Fin (4 / 100)" and h: "history a = []" by (simp_all add: a_def)
  have fd: "frame_dt (Fin 1000) (Fin 0) = Fin (32 / 1000)"
    by (simp add: frame_dt_def minus_jsnum_def)
  have "time (state (update (Fin 1000) a)) = Fin (4 / 100 + 32 / 1000)"
    using 1 2 old fd by (rule update_time_Fin)
  then have new: "time (state (update (Fin 1000) a)) = Fin (72 / 1000)" by simp
  have "valid_config (config a)"
    by (simp add: a_def INITIAL_CONFIG_def valid_config_def)
  moreover have "at_rest (state a)" by (simp add: a_def at_rest_def)
  moreover have "is_fin (Fin 1000)" by simp
  moreover have "\<forall>p. lastTimeRef a = Some p \<longrightarrow> is_fin p" by (simp add: a_def)
  ultimately have "at_rest (state (update (Fin 1000) a))" by (rule update_rest)
  then have th: "theta1 (state (update (Fin 1000) a)) = Fin 0"
    "theta2 (state (update (Fin 1000) a)) = Fin 0" by (simp_all add: at_rest_def)
  have pt: "newPoint (state (update (Fin 1000) a))
      = \<lparr>hp_time = Fin (7 / 100), hp_theta1 = Fin 0, hp_theta2 = Fin 0\<rparr>"
    by (simp add: newPoint_def new th Math_PI_def)
  have bound: "\<bar>72 / 1000\<bar> < (10 ^ 21 :: real)" by simp
  note inst = tick_history_sample [OF 1 2, where tm = "Fin 1000" and t = "72 / 1000" and ?x1.0 = 0 and ?x2.0 = 0]
  from inst have "history (update (Fin 1000) a) =
      (if js_gt (Math_floor (time (state (update (Fin 1000) a)) * Fin 20))
                (Math_floor (time (state a) * Fin 20))
       then slice_last 100 (history a @ [newPoint (state (update (Fin 1000) a))])
       else history a)" by (rule conjunct1)
  then have hist: "history (update (Fin 1000) a)
      = [\<lparr>hp_time = Fin (7 / 100), hp_theta1 = Fin 0, hp_theta2 = Fin 0\<rparr>]"
    unfolding new old h pt by (simp add: slice_last_def)
  from inst new bound
  have "\<exists>n::int. hp_time (newPoint (state (update (Fin 1000) a))) = Fin (of_int n / 100)
      \<and> \<bar>of_int n / 100 - 72 / 1000\<bar> \<le> (1 / 200 :: real)" by blast
  then have rnd: "\<exists>n::int. Fin (7 / 100) = Fin (of_int n / 100)
      \<and> \<bar>of_int n / 100 - 72 / 1000\<bar> \<le> (1 / 200 :: real)"
    unfolding pt by simp
  have bound0: "\<bar>0 * 180 / pi\<bar> < (10 ^ 21 :: real)" by simp
  from inst th(1) bound0
  have "\<exists>n::int. hp_theta1 (newPoint (state (update (Fin 1000) a))) = Fin (of_int n / 10)
      \<and> \<bar>of_int n / 10 - 0 * 180 / pi\<bar> \<le> (1 / 20 :: real)" by blast
  then have rnd1: "\<exists>n::int. Fin 0 = Fin (of_int n / 10)
      \<and> \<bar>of_int n / 10 - 0 * 180 / pi\<bar> \<le> (1 / 20 :: real)"
    unfolding pt by (simp only: HistoryPoint.simps)
  from 1 2 hist rnd rnd1 show ?thesis unfolding a_def by (intro conjI)
qed

text \<open>
  Claim C6. Along every run of events from the initial application whose frames carry
  finite timestamps, none smaller than the anchor it meets, the history holds at most
  100 points and their times increase strictly from the oldest to the newest. A further
  frame changes the history exactly when it integrates and the simulation time enters a
  new twentieth of a second: it then appends the new point at the end and, once 100
  points are held, drops the oldest one from the front. The second theorem runs 201
  frames 32 milliseconds apart, after which 100 points are held, and shows the next
  frame dropping the first of them.
\<close>

theorem history_bounded_increasing:
  assumes "stamps_ok None es"
  shows "length (history (run es initial_app)) \<le> 100
    \<and> increasing_times (history (run es initial_app))
    \<and> history (update tm (run es initial_app)) =
        (if lastTimeRef (run es initial_app) \<noteq> None \<and> isRunning (run es initial_app)
            \<and> js_gt (Math_floor (time (state (update tm (run es initial_app))) * Fin 20))
                    (Math_floor (time (state (run es initial_app)) * Fin 20))
         then (if length (history (run es initial_app)) < 100
               then history (run es initial_app)
                      @ [newPoint (state (update tm (run es initial_app)))]
               else tl (history (run es initial_app))
                      @ [newPoint (state (update tm (run es initial_app)))])
         else history (run es initial_app))"
proof -
  have "hist_inv initial_app"
    using initial_hist_inv [where c = INITIAL_CONFIG and b = False] by (simp add: initial_app_def)
  moreover have "stamps_ok (lastTimeRef initial_app) es"
    using assms by (simp add: initial_app_def)
  ultimately have inv: "hist_inv (run es initial_app)" by (rule run_hist_inv)
  then have len: "length (history (run es initial_app)) \<le> 100"
    and incr: "increasing_times (history (run es initial_app))"
    by (simp_all add: hist_inv_def)
  have "history (update tm (run es initial_app)) =
        (if lastTimeRef (run es initial_app) \<noteq> None \<and> isRunning (run es initial_app)
            \<and> js_gt (Math_floor (time (state (update tm (run es initial_app))) * Fin 20))
                    (Math_floor (time (state (run es initial_app)) * Fin 20))
         then (if length (history (run es initial_app)) < 100
               then history (run es initial_app)
                      @ [newPoint (state (update tm (run es initial_app)))]
               else tl (history (run es initial_app))
                      @ [newPoint (state (update tm (run es initial_app)))])
         else history (run es initial_app))"
    by (simp only: update_history_exact [of tm "run es initial_app"] slice_last_snoc [OF len])
  with len incr show ?thesis by (intro conjI)
qed

theorem history_bounded_increasing_witness:
  "stamps_ok None (SetIsRunning True # steady_frames 201)
   \<and> length (history (run (SetIsRunning True # steady_frames 201) initial_app)) = 100
   \<and> increasing_times (history (run (SetIsRunning True # steady_frames 201) initial_app))
   \<and> history (update (Fin 6464) (run (SetIsRunning True # steady_frames 201) initial_app))
       = tl (history (run (SetIsRunning True # steady_frames 201) initial_app))
         @ [newPoint (state (update (Fin 6464)
              (run (SetIsRunning True # steady_frames 201) initial_app)))]"
proof -
  define b where "b = run (SetIsRunning True # steady_frames 201) initial_app"
  have b: "b = run (steady_frames 201) (initial_app\<lparr>isRunning := True\<rparr>)"
    by (simp add: b_def)
  from steady_run [of 201]
  have t: "time (state b) = Fin (6432 / 1000)"
    and p: "lastTimeRef b = Some (Fin 6432)" and r: "isRunning b"
    and ok0: "stamps_ok None (steady_frames 201)"
    unfolding b by simp_all
  from ok0 have ok: "stamps_ok None (SetIsRunning True # steady_frames 201)" by simp
  have "count_inv initial_app"
    using initial_count_inv [where c = INITIAL_CONFIG and b = False] by (simp add: initial_app_def)
  moreover have "stamps_ok (lastTimeRef initial_app) (SetIsRunning True # steady_frames 201)"
    using ok by (simp add: initial_app_def)
  ultimately have "count_inv b" unfolding b_def by (rule run_count_inv)
  then obtain u where u: "time (state b) = Fin u"
    "length (history b) = min 100 (nat \<lfloor>u * 20\<rfloor>)"
    unfolding count_inv_def by blast
  from u(1) t have "u = 6432 / 1000" by simp
  with u(2) have len: "length (history b) = 100" by simp
  have fd: "frame_dt (Fin 6464) (Fin 6432) = Fin (32 / 1000)"
    by (simp add: frame_dt_def minus_jsnum_def)
  have "time (state (update (Fin 6464) b)) = Fin (6432 / 1000 + 32 / 1000)"
    using p r t fd by (rule update_time_Fin)
  then have t': "time (state (update (Fin 6464) b)) = Fin (6464 / 1000)" by simp
  have cross: "js_gt (Math_floor (time (state (update (Fin 6464) b)) * Fin 20))
      (Math_floor (time (state b) * Fin 20))"
    unfolding t t' by simp
  note inst = history_bounded_increasing [OF ok, of "Fin 6464", folded b_def]
  from inst have incr: "increasing_times (history b)" by blast
  from inst have "history (update (Fin 6464) b) =
        (if lastTimeRef b \<noteq> None \<and> isRunning b
            \<and> js_gt (Math_floor (time (state (update (Fin 6464) b)) * Fin 20))
                    (Math_floor (time (state b) * Fin 20))
         then (if length (history b) < 100
               then history b @ [newPoint (state (update (Fin 6464) b))]
               else tl (history b) @ [newPoint (state (update (Fin 6464) b))])
         else history b)" by blast
  with p r cross len
  have "history (update (Fin 6464) b) = tl (history b) @ [newPoint (state (update (Fin 6464) b))]"
    by simp
  with ok len incr show ?thesis unfolding b_def by (intro conjI)
qed

text \<open>
  Claim C7, as stated for every state and configuration, fails where the configuration
  is degenerate: with \<open>L1 = 0\<close> the acceleration of the first arm is \<open>0 / 0\<close>, which is
  \<^verbatim>\<open>NaN\<close>, and the step with \<open>dt = 0\<close> returns \<^verbatim>\<open>NaN\<close> for \<open>omega1\<close>.
\<close>

theorem rk4_zero_dt_degenerate:
  "rk4 \<lparr>theta1 = Fin 0, omega1 = Fin 0, theta2 = Fin 0, omega2 = Fin 0, time = Fin 0\<rparr>
       \<lparr>L1 = Fin 0, L2 = Fin 1, m1 = Fin (15 / 10), m2 = Fin 1, g = Fin (981 / 100),
        damping = Fin (2 / 100)\<rparr> (Fin 0)
   \<noteq> \<lparr>theta1 = Fin 0, omega1 = Fin 0, theta2 = Fin 0, omega2 = Fin 0, time = Fin 0\<rparr>"
proof -
  define s where "s = \<lparr>theta1 = Fin 0, omega1 = Fin 0, theta2 = Fin 0, omega2 = Fin 0, time = Fin 0\<rparr>"
  define c where "c = \<lparr>L1 = Fin 0, L2 = Fin 1, m1 = Fin (15 / 10), m2 = Fin 1, g = Fin (981 / 100),
        damping = Fin (2 / 100)\<rparr>"
  have "derivatives [theta1 s, omega1 s, theta2 s, omega2 s] c = [Fin 0, NaN, Fin 0, Fin 0]"
    by (simp add: s_def c_def derivatives_def Let_def idx_def minus_jsnum_def)
  then have "derivatives [theta1 s, omega1 s, theta2 s, omega2 s] c ! 1 = NaN" by simp
  then have "omega1 (rk4 s c (Fin 0)) = NaN" by (rule rk4_omega1_NaN)
  moreover have "omega1 s = Fin 0" by (simp add: s_def)
  ultimately have "rk4 s c (Fin 0) \<noteq> s" by auto
  then show ?thesis unfolding s_def c_def .
qed

text \<open>
  Claim C7, amended. For every state whose angles and angular velocities are finite and
  at most \<open>10\<^sup>1\<^sup>0\<^sup>0\<close> in magnitude and every configuration within the ranges of the
  sliders, a step with \<open>dt = 0\<close> returns the input state unchanged in all five fields.
  The bounds keep the program's doubles finite: beyond them a squared velocity
  overflows to \<^verbatim>\<open>Infinity\<close> (at \<open>omega1 = 10\<^sup>2\<^sup>0\<^sup>0\<close>, say) and the step returns \<^verbatim>\<open>NaN\<close>,
  which the exact arithmetic of this model does not show.
\<close>

theorem rk4_zero_dt_identity:
  assumes "bounded_channels s" "slider_config c"
  shows "rk4 s c (Fin 0) = s"
  using assms by (intro rk4_zero_dt bounded_channels_finite slider_config_positive)

theorem rk4_zero_dt_identity_witness:
  "bounded_channels INITIAL_STATE \<and> slider_config INITIAL_CONFIG
   \<and> rk4 INITIAL_STATE INITIAL_CONFIG (Fin 0) = INITIAL_STATE"
proof -
  have lo: "- (10 ^ 100) \<le> (0::real)" and hi: "(4::real) \<le> 10 ^ 100" by simp_all
  have "0 \<le> pi / 3" "pi / 3 \<le> 4" "0 \<le> pi / 4" "pi / 4 \<le> 4"
    using pi_gt_zero pi_less_4 by simp_all
  with lo hi have "- (10 ^ 100) \<le> pi / 3" "pi / 3 \<le> 10 ^ 100"
    "- (10 ^ 100) \<le> pi / 4" "pi / 4 \<le> 10 ^ 100"
    by (blast intro: order_trans)+
  then have 1: "bounded_channels INITIAL_STATE"
    unfolding bounded_channels_def INITIAL_STATE_def Math_PI_def
    by (simp del: power_numeral add: lo)
  have 2: "slider_config INITIAL_CONFIG"
    by (simp add: slider_config_def INITIAL_CONFIG_def)
  from rk4_zero_dt_identity [OF 1 2] 1 2 show ?thesis by (intro conjI)
qed

text \<open>
  Claim C8, as stated for every valid configuration and every \<open>dt\<close>, fails: at rest
  every rate is zero, and with \<open>dt\<close> the number \<^verbatim>\<open>Infinity\<close> the first stage adds
  \<open>0 * Infinity\<close>, which is \<^verbatim>\<open>NaN\<close>, to each channel. (In the doubles of the program it
  also fails for valid configurations whose sums round or overflow, such as
  \<open>m1 = 10\<^sup>-\<^sup>1\<^sup>7\<close> with \<open>m2 = 1\<close>, where \<open>2 m1 + m2 - m2\<close> is \<open>0\<close>, or \<open>g = 10\<^sup>3\<^sup>0\<^sup>8\<close>; the
  exact arithmetic of this model does not show those.)
\<close>

theorem equilibrium_infinite_dt:
  "valid_config INITIAL_CONFIG
   \<and> at_rest \<lparr>theta1 = Fin 0, omega1 = Fin 0, theta2 = Fin 0, omega2 = Fin 0, time = Fin 0\<rparr>
   \<and> \<not> at_rest (rk4 \<lparr>theta1 = Fin 0, omega1 = Fin 0, theta2 = Fin 0, omega2 = Fin 0,
                        time = Fin 0\<rparr> INITIAL_CONFIG PInf)"
proof -
  define s where "s = \<lparr>theta1 = Fin 0, omega1 = Fin 0, theta2 = Fin 0, omega2 = Fin 0, time = Fin 0\<rparr>"
  have v: "valid_config INITIAL_CONFIG"
    by (simp add: valid_config_def INITIAL_CONFIG_def)
  have r: "at_rest s" by (simp add: s_def at_rest_def)
  have k: "derivatives [theta1 s, omega1 s, theta2 s, omega2 s] INITIAL_CONFIG
      = [Fin 0, Fin 0, Fin 0, Fin 0]"
    using derivatives_rest [OF v] by (simp add: s_def)
  have "theta1 (rk4 s INITIAL_CONFIG PInf) = NaN"
    unfolding rk4_def Let_def k
    by (simp add: map_idx4 idx_def derivatives_length derivatives_first NaN_absorbs s_def)
  then have "\<not> at_rest (rk4 s INITIAL_CONFIG PInf)" by (simp add: at_rest_def)
  with v r show ?thesis unfolding s_def by (intro conjI)
qed

text \<open>
  Claim C8, amended. From the equilibrium, with a configuration within the ranges of
  the sliders, the angles and angular velocities stay exactly zero through any number
  of integration steps with finite increments, and through any run of frames with
  finite timestamps, none smaller than the anchor it meets, of changes of the running
  flag and of changes to another configuration of the sliders; the steps advance the
  time field only.
\<close>

theorem equilibrium_fixed_point:
  assumes "slider_config (config a)" and "at_rest (state a)"
    and "list_all is_fin dts"
    and "list_all quiet_event es" and "stamps_ok (lastTimeRef a) es"
  shows "at_rest (rk4_steps dts (config a) (state a))
    \<and> time (rk4_steps dts (config a) (state a)) = foldl (+) (time (state a)) dts
    \<and> at_rest (state (run es a))"
  using assms by (simp add: rk4_steps_rest rk4_steps_time run_quiet_rest slider_config_valid)

theorem equilibrium_fixed_point_witness:
  "slider_config (config (initial_app\<lparr>state := \<lparr>theta1 = Fin 0, omega1 = Fin 0, theta2 = Fin 0, omega2 = Fin 0, time = Fin 0\<rparr>, isRunning := True\<rparr>))
   \<and> at_rest (state (initial_app\<lparr>state := \<lparr>theta1 = Fin 0, omega1 = Fin 0, theta2 = Fin 0, omega2 = Fin 0, time = Fin 0\<rparr>, isRunning := True\<rparr>))
   \<and> list_all is_fin [Fin (1 / 100), Fin 3]
   \<and> list_all quiet_event [Tick (Fin 0), Tick (Fin 16), SetIsRunning False, Tick (Fin 40),
        SetConfig (INITIAL_CONFIG\<lparr>g := Fin 0\<rparr>), SetIsRunning True, Tick (Fin 56)]
   \<and> stamps_ok None [Tick (Fin 0), Tick (Fin 16), SetIsRunning False, Tick (Fin 40),
        SetConfig (INITIAL_CONFIG\<lparr>g := Fin 0\<rparr>), SetIsRunning True, Tick (Fin 56)]
   \<and> at_rest (rk4_steps [Fin (1 / 100), Fin 3] INITIAL_CONFIG
        \<lparr>theta1 = Fin 0, omega1 = Fin 0, theta2 = Fin 0, omega2 = Fin 0, time = Fin 0\<rparr>)
   \<and> at_rest (state (run [Tick (Fin 0), Tick (Fin 16), SetIsRunning False, Tick (Fin 40),
        SetConfig (INITIAL_CONFIG\<lparr>g := Fin 0\<rparr>), SetIsRunning True, Tick (Fin 56)]
        (initial_app\<lparr>state := \<lparr>theta1 = Fin 0, omega1 = Fin 0, theta2 = Fin 0, omega2 = Fin 0, time = Fin 0\<rparr>, isRunning := True\<rparr>)))"
proof -
  let ?a = "initial_app\<lparr>state := \<lparr>theta1 = Fin 0, omega1 = Fin 0, theta2 = Fin 0, omega2 = Fin 0, time = Fin 0\<rparr>, isRunning := True\<rparr>"
  let ?es = "[Tick (Fin 0), Tick (Fin 16), SetIsRunning False, Tick (Fin 40),
        SetConfig (INITIAL_CONFIG\<lparr>g := Fin 0\<rparr>), SetIsRunning True, Tick (Fin 56)]"
  have 1: "slider_config (config ?a)"
    by (simp add: initial_app_def INITIAL_CONFIG_def slider_config_def)
  have 2: "at_rest (state ?a)" by (simp add: at_rest_def)
  have 3: "list_all is_fin [Fin (1 / 100), Fin 3]" by simp
  have 4: "list_all quiet_event ?es"
    by (simp add: INITIAL_CONFIG_def slider_config_def)
  have 5: "stamps_ok None ?es" by simp
  have anchor: "lastTimeRef ?a = None" by (simp add: initial_app_def)
  have cfg: "config ?a = INITIAL_CONFIG" by (simp add: initial_app_def)
  have st: "state ?a = \<lparr>theta1 = Fin 0, omega1 = Fin 0, theta2 = Fin 0, omega2 = Fin 0, time = Fin 0\<rparr>" by simp
  from equilibrium_fixed_point [OF 1 2 3 4, unfolded anchor, OF 5] 1 2 3 4 5 show ?thesis
    unfolding cfg st by (intro conjI) blast+
qed

text \<open>
  Claim C9. The reset clears the anchor and the history and sets the state to the
  initial state. What it returns is the initial application with the configuration and
  the running flag of the moment, so every run of events after a reset gives the same
  result as the same run on that fresh application.
\<close>

theorem reset_is_fresh:
  "state (resetState a) = INITIAL_STATE \<and> history (resetState a) = []
   \<and> lastTimeRef (resetState a) = None
   \<and> resetState a = initial_app\<lparr>config := config a, isRunning := isRunning a\<rparr>
   \<and> run es (resetState a) = run es (initial_app\<lparr>config := config a, isRunning := isRunning a\<rparr>)"
proof -
  have fresh: "resetState a = initial_app\<lparr>config := config a, isRunning := isRunning a\<rparr>"
    by (rule resetState_initial)
  have "state (resetState a) = INITIAL_STATE" "history (resetState a) = []"
    "lastTimeRef (resetState a) = None"
    by (simp_all add: resetState_def)
  moreover from fresh
  have "run es (resetState a) = run es (initial_app\<lparr>config := config a, isRunning := isRunning a\<rparr>)"
    by (rule arg_cong)
  ultimately show ?thesis using fresh by (intro conjI)
qed

text \<open>
  Claim C10. The reset takes the application alone, restores the one built-in initial
  condition \<open>theta1 = pi/3\<close>, \<open>omega1 = 0\<close>, \<open>theta2 = pi/4\<close>, \<open>omega2 = 0\<close>, \<open>time = 0\<close>
  whatever the application was, and leaves the configuration unchanged. No event
  installs another state: an event leaves the state alone, resets it to the initial
  state, or integrates it as a frame does.
\<close>

theorem reset_initial_condition:
  "state (resetState a) =
     \<lparr>theta1 = Fin (pi / 3), omega1 = Fin 0, theta2 = Fin (pi / 4), omega2 = Fin 0,
      time = Fin 0\<rparr>
   \<and> config (resetState a) = config a
   \<and> state (resetState a) = state (resetState b)
   \<and> (state (step e a) = state a \<or> state (step e a) = INITIAL_STATE
        \<or> (\<exists>tm. state (step e a) = state (update tm a)))"
proof -
  have "state (step e a) = state a \<or> state (step e a) = INITIAL_STATE
        \<or> (\<exists>tm. state (step e a) = state (update tm a))"
    by (cases e) (auto simp: resetState_def)
  then show ?thesis
    by (simp add: resetState_def INITIAL_STATE_def Math_PI_def)
qed

end
